theory Spec2Isabelle
  imports Main
begin

section \<open>Data model\<close>

text \<open>
  The redactor of \<^verbatim>\<open>golog.go\<close> walks a Go value through the \<^verbatim>\<open>reflect\<close> package.
  This section models what it sees there.

  A struct field as \<^verbatim>\<open>reflect.StructField\<close> describes it: \<^verbatim>\<open>PkgPath\<close> is empty exactly
  for an exported field, \<^verbatim>\<open>Anonymous\<close> marks an embedded field, and the tag is kept as
  its list of key/value pairs.
\<close>

record StructField =
  Name :: string
  PkgPath :: string
  Tag :: "(string \<times> string) list"
  Anonymous :: bool

text \<open>
  The values that \<^verbatim>\<open>reflect.ValueOf\<close> can wrap. The walker only tells three kinds
  apart: pointers, structs, and everything else. \<open>VInvalid\<close> is the zero
  \<^verbatim>\<open>reflect.Value\<close> that a nil interface yields; \<open>VOpaque k\<close> stands for a value of any
  kind without a constructor of its own (a map, a slice, an interface, a channel).
  A non-nil pointer carries the value it points at; a struct carries its fields in
  declaration order.
\<close>

datatype gval =
    VInvalid
  | VBool bool
  | VInt int
  | VString string
  | VOpaque nat
  | VNil
  | VPtr gval
  | VStruct "(StructField \<times> gval) list"

text \<open>
  The read-only bits of a \<^verbatim>\<open>reflect.Value\<close>: \<^verbatim>\<open>flagStickyRO\<close> marks a value obtained
  through an unexported, non-embedded field, \<^verbatim>\<open>flagEmbedRO\<close> one obtained through an
  unexported embedded field.
\<close>

record flag =
  flagStickyRO :: bool
  flagEmbedRO :: bool

type_synonym Value = "flag \<times> gval"

text \<open>
  The panics of \<^verbatim>\<open>reflect\<close> in reach of the walker: \<^verbatim>\<open>Interface\<close> on a read-only value, and
  \<^verbatim>\<open>NumField\<close> on a value that is not a struct.
\<close>

datatype error = PanicUnexported | PanicNotStruct

text \<open>
  The accumulator, a \<^verbatim>\<open>zerolog.Context\<close>, as the key/value pairs added to it, oldest
  first. A value is kept as it is; nothing is rendered.
\<close>

type_synonym Context = "(string \<times> gval) list"

definition noRO :: flag where
  "noRO = \<lparr>flagStickyRO = False, flagEmbedRO = False\<rparr>"

definition ValueOf :: "gval \<Rightarrow> Value" where
  "ValueOf v = (noRO, v)"

definition IsExported :: "StructField \<Rightarrow> bool" where
  "IsExported f = (PkgPath f = [])"

definition flagRO :: "flag \<Rightarrow> bool" where
  "flagRO fl = (flagStickyRO fl \<or> flagEmbedRO fl)"

text \<open>
  \<^verbatim>\<open>Value.Field(i)\<close> inherits the sticky bit of the struct, clears the embed bit, and
  sets one of the two when the field is unexported.
\<close>

definition Field_flag :: "flag \<Rightarrow> StructField \<Rightarrow> flag" where
  "Field_flag fl f =
     (if IsExported f then \<lparr>flagStickyRO = flagStickyRO fl, flagEmbedRO = False\<rparr>
      else if Anonymous f then \<lparr>flagStickyRO = flagStickyRO fl, flagEmbedRO = True\<rparr>
      else \<lparr>flagStickyRO = True, flagEmbedRO = False\<rparr>)"

text \<open>
  \<^verbatim>\<open>Value.Interface()\<close> panics on a value obtained through an unexported field.
\<close>

definition Interface :: "Value \<Rightarrow> error + gval" where
  "Interface v = (if flagRO (fst v) then Inl PanicUnexported else Inr (snd v))"

text \<open>\<^verbatim>\<open>StructTag.Get\<close>: the value of the first pair with that key, or the empty string.\<close>

definition Tag_Get :: "(string \<times> string) list \<Rightarrow> string \<Rightarrow> string" where
  "Tag_Get tag key = (case map_of tag key of None \<Rightarrow> [] | Some s \<Rightarrow> s)"

definition CensoredFieldPlaceholder :: string where
  "CensoredFieldPlaceholder = ''***''"

text \<open>The two \<^verbatim>\<open>zerolog.Context\<close> builders the walker uses; both append one key/value pair.\<close>

definition Str :: "Context \<Rightarrow> string \<Rightarrow> string \<Rightarrow> Context" where
  "Str ctx key s = ctx @ [(key, VString s)]"

definition Any :: "Context \<Rightarrow> string \<Rightarrow> gval \<Rightarrow> Context" where
  "Any ctx key i = ctx @ [(key, i)]"

section \<open>The redactor\<close>

text \<open>
  \<^verbatim>\<open>
  func isFieldSecret(f reflect.StructField) bool {
      return f.Tag.Get("secret") != ""
  }
  \<close>
\<close>

definition isFieldSecret :: "StructField \<Rightarrow> bool" where
  "isFieldSecret f = (Tag_Get (Tag f) ''secret'' \<noteq> [])"

text \<open>
  \<^verbatim>\<open>
  func asStruct(v reflect.Value) (reflect.Value, bool) {
      for v.Kind() == reflect.Pointer {
          if v.IsNil() {
              return reflect.Value{}, false
          }
          v = v.Elem()
      }
      if v.Kind() != reflect.Struct {
          return reflect.Value{}, false
      }
      return v, true
  }
  \<close>
  The loop is a recursion on the pointer; \<^verbatim>\<open>Elem\<close> keeps both read-only bits.
\<close>

fun asStruct :: "Value \<Rightarrow> Value option" where
  "asStruct (fl, VPtr v) = asStruct (fl, v)"
| "asStruct (fl, VNil) = None"
| "asStruct (fl, VStruct fs) = Some (fl, VStruct fs)"
| "asStruct (fl, v) = None"

lemma asStruct_size: "asStruct (fl, v) = Some (fl', v') \<Longrightarrow> size v' \<le> size v"
  by (induction "(fl, v)" arbitrary: v rule: asStruct.induct) auto

text \<open>
  \<^verbatim>\<open>
  func censorFields(ctx *zerolog.Context, path string, v reflect.Value) {
      v, ok := asStruct(v)
      if !ok {
          return
      }
      vType := v.Type()
      for i := 0; i < v.NumField(); i++ {
          fieldType := vType.Field(i)
          fieldValue := v.Field(i)
          if nestedStruct, ok := asStruct(fieldValue); ok {
              censorFields(ctx, path+"."+fieldType.Name, nestedStruct)
              continue
          }
          fieldPath := path + "." + fieldType.Name
          if isFieldSecret(fieldType) {
              *ctx = ctx.Str(fieldPath, CensoredFieldPlaceholder)
          } else {
              *ctx = ctx.Any(fieldPath, fieldValue.Interface())
          }
      }
  }
  \<close>
  The accumulator behind the pointer is passed in and returned; \<open>censorLoop\<close> is the
  \<^verbatim>\<open>for\<close> loop over the fields still to visit. A panic ends the walk at once.
\<close>

function censorFields :: "Context \<Rightarrow> string \<Rightarrow> Value \<Rightarrow> error + Context"
  and censorLoop :: "Context \<Rightarrow> string \<Rightarrow> flag \<Rightarrow> (StructField \<times> gval) list \<Rightarrow> error + Context"
where
  "censorFields ctx path v =
     (case asStruct v of
        None \<Rightarrow> Inr ctx
      | Some (fl, VStruct fs) \<Rightarrow> censorLoop ctx path fl fs
      | Some (fl, _) \<Rightarrow> Inl PanicNotStruct)"
| "censorLoop ctx path fl [] = Inr ctx"
| "censorLoop ctx path fl ((fieldType, x) # rest) =
     (let fieldValue = (Field_flag fl fieldType, x) in
      case asStruct fieldValue of
        Some nestedStruct \<Rightarrow>
          (case censorFields ctx (path @ ''.'' @ Name fieldType) nestedStruct of
             Inl e \<Rightarrow> Inl e
           | Inr ctx' \<Rightarrow> censorLoop ctx' path fl rest)
      | None \<Rightarrow>
          (let fieldPath = path @ ''.'' @ Name fieldType in
           if isFieldSecret fieldType
           then censorLoop (Str ctx fieldPath CensoredFieldPlaceholder) path fl rest
           else (case Interface fieldValue of
                   Inl e \<Rightarrow> Inl e
                 | Inr i \<Rightarrow> censorLoop (Any ctx fieldPath i) path fl rest)))"
  by pat_completeness auto
termination
proof (relation "measure (\<lambda>a. case a of
          Inl (ctx, path, v) \<Rightarrow> 2 * size (snd v) + 1
        | Inr (ctx, path, fl, fs) \<Rightarrow> 2 * size (VStruct fs))")
  show "wf (measure (\<lambda>a. case a of
          Inl (ctx, path, v) \<Rightarrow> 2 * size (snd v) + 1
        | Inr (ctx, path, fl, fs) \<Rightarrow> 2 * size (VStruct fs)))"
    by simp
next
  fix ctx :: Context and path :: string and v :: Value and x2 fl x2a fs
  assume "asStruct v = Some x2" "(fl, x2a) = x2" "x2a = VStruct fs"
  then have "asStruct (fst v, snd v) = Some (fl, VStruct fs)" by simp
  from asStruct_size [OF this]
  show "(Inr (ctx, path, fl, fs), Inl (ctx, path, v)) \<in> measure (\<lambda>a. case a of
          Inl (ctx, path, v) \<Rightarrow> 2 * size (snd v) + 1
        | Inr (ctx, path, fl, fs) \<Rightarrow> 2 * size (VStruct fs))"
    by simp
next
  fix ctx :: Context and path :: string and fl fieldType x rest xa x2
  assume "xa = (Field_flag fl fieldType, x)" "asStruct xa = Some x2"
  then have "asStruct (Field_flag fl fieldType, x) = Some (fst x2, snd x2)" by simp
  from asStruct_size [OF this]
  show "(Inl (ctx, path @ ''.'' @ Name fieldType, x2), Inr (ctx, path, fl, (fieldType, x) # rest))
        \<in> measure (\<lambda>a. case a of
          Inl (ctx, path, v) \<Rightarrow> 2 * size (snd v) + 1
        | Inr (ctx, path, fl, fs) \<Rightarrow> 2 * size (VStruct fs))"
    by simp
qed auto

text \<open>
  \<^verbatim>\<open>
  func WithCensoredSecretFields(ctx zerolog.Context, rootName string, v any) zerolog.Context {
      censorFields(&ctx, rootName, reflect.ValueOf(v))
      return ctx
  }
  \<close>
\<close>

definition WithCensoredSecretFields :: "Context \<Rightarrow> string \<Rightarrow> gval \<Rightarrow> error + Context" where
  "WithCensoredSecretFields ctx rootName v = censorFields ctx rootName (ValueOf v)"

section \<open>The event hook\<close>

text \<open>
  \<^verbatim>\<open>zerolog.Level\<close> is an \<^verbatim>\<open>int8\<close>; the hook only compares it with three constants.
\<close>

type_synonym Level = int

definition TraceLevel :: Level where "TraceLevel = -1"
definition DebugLevel :: Level where "DebugLevel = 0"
definition InfoLevel :: Level where "InfoLevel = 1"
definition WarnLevel :: Level where "WarnLevel = 2"
definition ErrorLevel :: Level where "ErrorLevel = 3"
definition FatalLevel :: Level where "FatalLevel = 4"
definition PanicLevel :: Level where "PanicLevel = 5"
definition NoLevel :: Level where "NoLevel = 6"
definition Disabled :: Level where "Disabled = 7"

text \<open>
  What \<^verbatim>\<open>ctxerr.From\<close> returns: an error (here its message, \<open>None\<close> for nil) and the
  auxiliary mapping, listed in the key order in which the event serialises it.
\<close>

record ErrCtx =
  Err :: "string option"
  Ctx :: "(string \<times> gval) list"

text \<open>
  An in-flight event: the scope it carries (what \<^verbatim>\<open>GetCtx\<close> returns) and the fields
  added so far.
\<close>

record 'c Event =
  evCtx :: 'c
  evFields :: "(string \<times> gval) list"

definition Event_Fields :: "'c Event \<Rightarrow> (string \<times> gval) list \<Rightarrow> 'c Event" where
  "Event_Fields e m = e\<lparr>evFields := evFields e @ m\<rparr>"

definition Event_Str :: "'c Event \<Rightarrow> string \<Rightarrow> string \<Rightarrow> 'c Event" where
  "Event_Str e key s = e\<lparr>evFields := evFields e @ [(key, VString s)]\<rparr>"

text \<open>\<^verbatim>\<open>Event.Err\<close> adds the field \<^verbatim>\<open>error\<close> with the error's message; nil adds nothing.\<close>

definition Event_Err :: "'c Event \<Rightarrow> string option \<Rightarrow> 'c Event" where
  "Event_Err e err = (case err of None \<Rightarrow> e | Some m \<Rightarrow> Event_Str e ''error'' m)"

definition digitChar :: "nat \<Rightarrow> char" where
  "digitChar d = ''0123456789'' ! (d mod 10)"

fun natToDec :: "nat \<Rightarrow> string" where
  "natToDec n = (if n < 10 then [digitChar n] else natToDec (n div 10) @ [digitChar (n mod 10)])"

declare natToDec.simps [simp del]

text \<open>The verb \<^verbatim>\<open>%d\<close> of \<^verbatim>\<open>fmt.Sprintf\<close>.\<close>

definition itoa :: "int \<Rightarrow> string" where
  "itoa i = (if i < 0 then CHR ''-'' # natToDec (nat (- i)) else natToDec (nat i))"

text \<open>
  \<^verbatim>\<open>
  func (h callerHook) Run(e *zerolog.Event, level zerolog.Level, msg string) {
      errCtx := ctxerr.From(e.GetCtx())
      if errCtx.Err != nil {
          e.Fields(errCtx.Ctx)
          e.Err(errCtx.Err)
      }
      switch level {
      case zerolog.ErrorLevel, zerolog.FatalLevel, zerolog.PanicLevel:
          _, file, line, ok := runtime.Caller(3)
          if ok {
              e.Str("file", fmt.Sprintf("%s:%d", file, line))
          }
      }
  }
  \<close>
  The two collaborators are parameters: \<open>From\<close> is \<^verbatim>\<open>ctxerr.From\<close>, and
  \<open>Caller skip\<close> is \<^verbatim>\<open>runtime.Caller(skip)\<close> seen from inside the hook, giving file and
  line, or \<open>None\<close> when it reports \<^verbatim>\<open>ok = false\<close>. The event is passed in and returned.
\<close>

definition Run ::
  "('c \<Rightarrow> ErrCtx) \<Rightarrow> (nat \<Rightarrow> (string \<times> int) option) \<Rightarrow> 'c Event \<Rightarrow> Level \<Rightarrow> string \<Rightarrow> 'c Event"
where
  "Run From Caller e level msg =
     (let errCtx = From (evCtx e);
          e1 = (if Err errCtx \<noteq> None
                then Event_Err (Event_Fields e (Ctx errCtx)) (Err errCtx)
                else e)
      in if level = ErrorLevel \<or> level = FatalLevel \<or> level = PanicLevel
         then (case Caller 3 of
                 Some (file, line) \<Rightarrow> Event_Str e1 ''file'' (file @ '':'' @ itoa line)
               | None \<Rightarrow> e1)
         else e1)"

section \<open>The redactor over a store\<close>

text \<open>
  In the model above a pointer carries what it points at, so every value is a finite
  tree. Go values can also form cycles (\<^verbatim>\<open>n.Next = n\<close>). Here a non-nil pointer is an
  address into a store, and the two loops of the walker get fuel: \<open>None\<close> means the
  fuel ran out before the call returned or panicked.
\<close>

type_synonym addr = nat

datatype hval =
    HInvalid
  | HBool bool
  | HInt int
  | HString string
  | HOpaque nat
  | HNil
  | HPtr addr
  | HStruct "(StructField \<times> hval) list"

type_synonym heap = "addr \<Rightarrow> hval"
type_synonym hValue = "flag \<times> hval"
type_synonym hContext = "(string \<times> hval) list"

text \<open>The operations of \<^verbatim>\<open>reflect\<close> and of \<^verbatim>\<open>zerolog.Context\<close>, on stored values.\<close>

definition Interface_h :: "hValue \<Rightarrow> error + hval" where
  "Interface_h v = (if flagRO (fst v) then Inl PanicUnexported else Inr (snd v))"

definition Str_h :: "hContext \<Rightarrow> string \<Rightarrow> string \<Rightarrow> hContext" where
  "Str_h ctx key s = ctx @ [(key, HString s)]"

definition Any_h :: "hContext \<Rightarrow> string \<Rightarrow> hval \<Rightarrow> hContext" where
  "Any_h ctx key i = ctx @ [(key, i)]"

text \<open>
  \<^verbatim>\<open>asStruct\<close> with a bound on the iterations of its loop: \<open>Some None\<close> is the result
  \<^verbatim>\<open>false\<close>, \<open>Some (Some v)\<close> the struct found, \<open>None\<close> a loop still running when the
  fuel is spent (a pointer \<^verbatim>\<open>p\<close> of type \<^verbatim>\<open>type P *P\<close> with \<^verbatim>\<open>p = &p\<close> never leaves it).
\<close>

fun asStruct_h :: "nat \<Rightarrow> heap \<Rightarrow> hValue \<Rightarrow> hValue option option" where
  "asStruct_h 0 h v = None"
| "asStruct_h (Suc n) h (fl, HPtr a) = asStruct_h n h (fl, h a)"
| "asStruct_h (Suc n) h (fl, HNil) = Some None"
| "asStruct_h (Suc n) h (fl, HStruct fs) = Some (Some (fl, HStruct fs))"
| "asStruct_h (Suc n) h (fl, v) = Some None"

text \<open>
  \<^verbatim>\<open>censorFields\<close> with a bound on the depth of its recursion; the loop over the fields
  runs at the depth of its call.
\<close>

fun censorFields_h :: "nat \<Rightarrow> heap \<Rightarrow> hContext \<Rightarrow> string \<Rightarrow> hValue \<Rightarrow> (error + hContext) option"
  and censorLoop_h :: "nat \<Rightarrow> heap \<Rightarrow> hContext \<Rightarrow> string \<Rightarrow> flag \<Rightarrow> (StructField \<times> hval) list
                       \<Rightarrow> (error + hContext) option"
where
  "censorFields_h 0 h ctx path v = None"
| "censorFields_h (Suc n) h ctx path v =
     (case asStruct_h (Suc n) h v of
        None \<Rightarrow> None
      | Some None \<Rightarrow> Some (Inr ctx)
      | Some (Some (fl, HStruct fs)) \<Rightarrow> censorLoop_h n h ctx path fl fs
      | Some (Some (fl, _)) \<Rightarrow> Some (Inl PanicNotStruct))"
| "censorLoop_h n h ctx path fl [] = Some (Inr ctx)"
| "censorLoop_h n h ctx path fl ((fieldType, x) # rest) =
     (let fieldValue = (Field_flag fl fieldType, x) in
      case asStruct_h n h fieldValue of
        None \<Rightarrow> None
      | Some (Some nestedStruct) \<Rightarrow>
          (case censorFields_h n h ctx (path @ ''.'' @ Name fieldType) nestedStruct of
             None \<Rightarrow> None
           | Some (Inl e) \<Rightarrow> Some (Inl e)
           | Some (Inr ctx') \<Rightarrow> censorLoop_h n h ctx' path fl rest)
      | Some None \<Rightarrow>
          (let fieldPath = path @ ''.'' @ Name fieldType in
           if isFieldSecret fieldType
           then censorLoop_h n h (Str_h ctx fieldPath CensoredFieldPlaceholder) path fl rest
           else (case Interface_h fieldValue of
                   Inl e \<Rightarrow> Some (Inl e)
                 | Inr i \<Rightarrow> censorLoop_h n h (Any_h ctx fieldPath i) path fl rest)))"

section \<open>Notions of the specification\<close>

text \<open>A value normalizes to a record when dereferencing it ends at a struct.\<close>

definition normalizes :: "gval \<Rightarrow> bool" where
  "normalizes x = (asStruct (noRO, x) \<noteq> None)"

text \<open>
  The leaf fields of a value, as the specification describes the walk: dereference;
  stop at a nil reference or at a non-record; otherwise take the fields in declaration
  order, descend into those that normalize to a record, and list every other field with
  its path, its declaration and its value as reflection hands it out.
\<close>

type_synonym leaf = "string \<times> StructField \<times> Value"

definition leafPath :: "leaf \<Rightarrow> string" where
  "leafPath l = fst l"

definition leafField :: "leaf \<Rightarrow> StructField" where
  "leafField l = fst (snd l)"

definition leafFlag :: "leaf \<Rightarrow> flag" where
  "leafFlag l = fst (snd (snd l))"

definition leafValue :: "leaf \<Rightarrow> gval" where
  "leafValue l = snd (snd (snd l))"

fun leaves :: "string \<Rightarrow> flag \<Rightarrow> gval \<Rightarrow> leaf list" where
  "leaves path fl (VPtr v) = leaves path fl v"
| "leaves path fl (VStruct fs) =
     concat (map (\<lambda>(f, x).
        if normalizes x then leaves (path @ ''.'' @ Name f) (Field_flag fl f) x
        else [(path @ ''.'' @ Name f, f, (Field_flag fl f, x))]) fs)"
| "leaves path fl v = []"

text \<open>The entry a leaf stands for: the placeholder when marked, its own value otherwise.\<close>

definition emit :: "leaf \<Rightarrow> string \<times> gval" where
  "emit l = (leafPath l,
     if isFieldSecret (leafField l) then VString CensoredFieldPlaceholder else leafValue l)"

text \<open>A leaf is readable when the walker never has to read it or reflection lets it.\<close>

definition readable :: "leaf \<Rightarrow> bool" where
  "readable l = (isFieldSecret (leafField l) \<or> \<not> flagRO (leafFlag l))"

definition secretLeaves :: "string \<Rightarrow> flag \<Rightarrow> gval \<Rightarrow> leaf list" where
  "secretLeaves path fl v = filter (\<lambda>l. isFieldSecret (leafField l)) (leaves path fl v)"

definition plainLeaves :: "string \<Rightarrow> flag \<Rightarrow> gval \<Rightarrow> leaf list" where
  "plainLeaves path fl v = filter (\<lambda>l. \<not> isFieldSecret (leafField l)) (leaves path fl v)"

definition holdsPlaceholder :: "string \<times> gval \<Rightarrow> bool" where
  "holdsPlaceholder e = (snd e = VString CensoredFieldPlaceholder)"

text \<open>
  The declared names on the way to each leaf, one per nesting level, and the dotted
  path they spell under a root label.
\<close>

fun leafSegments :: "gval \<Rightarrow> string list list" where
  "leafSegments (VPtr v) = leafSegments v"
| "leafSegments (VStruct fs) =
     concat (map (\<lambda>(f, x).
        if normalizes x then map ((#) (Name f)) (leafSegments x) else [[Name f]]) fs)"
| "leafSegments v = []"

definition joinPath :: "string \<Rightarrow> string list \<Rightarrow> string" where
  "joinPath root segs = root @ concat (map (\<lambda>s. ''.'' @ s) segs)"

text \<open>What the error context contributes to an event.\<close>

definition errFields :: "ErrCtx \<Rightarrow> (string \<times> gval) list" where
  "errFields c = (case Err c of None \<Rightarrow> [] | Some m \<Rightarrow> Ctx c @ [(''error'', VString m)])"

text \<open>
  The reference graph of a stored value: a pointer leads to the cell it addresses, a
  struct to each of its field values. A value is acyclic when every path from it ends,
  and cyclic when it reaches a value that leads back to itself.
\<close>

inductive child :: "heap \<Rightarrow> hval \<Rightarrow> hval \<Rightarrow> bool" for h :: heap where
  child_ptr: "child h (HPtr a) (h a)"
| child_field: "(f, x) \<in> set fs \<Longrightarrow> child h (HStruct fs) x"

inductive acyclic_from :: "heap \<Rightarrow> hval \<Rightarrow> bool" for h :: heap where
  "(\<And>w. child h v w \<Longrightarrow> acyclic_from h w) \<Longrightarrow> acyclic_from h v"

definition cyclic :: "heap \<Rightarrow> hval \<Rightarrow> bool" where
  "cyclic h v = (\<exists>s. (child h)\<^sup>*\<^sup>* v s \<and> (child h)\<^sup>+\<^sup>+ s s)"

text \<open>Every struct that can be reached from a value has exported fields only.\<close>

fun fieldsExported :: "hval \<Rightarrow> bool" where
  "fieldsExported (HStruct fs) = (\<forall>p\<in>set fs. IsExported (fst p))"
| "fieldsExported v = True"

definition reachExported :: "heap \<Rightarrow> hval \<Rightarrow> bool" where
  "reachExported h v = (\<forall>w. (child h)\<^sup>*\<^sup>* v w \<longrightarrow> fieldsExported w)"

definition walk_ends :: "heap \<Rightarrow> hval \<Rightarrow> bool" where
  "walk_ends h v = (\<exists>n. \<forall>m\<ge>n. \<forall>ctx path fl.
      censorFields_h m h ctx path (fl, v) \<noteq> None \<and> asStruct_h m h (fl, v) \<noteq> None)"

text \<open>
  A stored value unfolds to a tree value when following its pointers through the store
  spells out that tree. Entries, outcomes and the results of \<^verbatim>\<open>asStruct\<close> of the two
  models are compared up to unfolding; the two walkers agree on a pair of values when
  from some fuel on they yield the same outcome.
\<close>

inductive unfolds :: "heap \<Rightarrow> hval \<Rightarrow> gval \<Rightarrow> bool" for h :: heap where
  u_invalid: "unfolds h HInvalid VInvalid"
| u_bool: "unfolds h (HBool b) (VBool b)"
| u_int: "unfolds h (HInt i) (VInt i)"
| u_string: "unfolds h (HString s) (VString s)"
| u_opaque: "unfolds h (HOpaque k) (VOpaque k)"
| u_nil: "unfolds h HNil VNil"
| u_ptr: "unfolds h (h a) t \<Longrightarrow> unfolds h (HPtr a) (VPtr t)"
| u_struct: "list_all2 (\<lambda>p q. fst p = fst q \<and> unfolds h (snd p) (snd q)) fs gs
     \<Longrightarrow> unfolds h (HStruct fs) (VStruct gs)"

definition sameEntries :: "heap \<Rightarrow> hContext \<Rightarrow> Context \<Rightarrow> bool" where
  "sameEntries h hctx ctx = list_all2 (\<lambda>p q. fst p = fst q \<and> unfolds h (snd p) (snd q)) hctx ctx"

fun sameOutcome :: "heap \<Rightarrow> (error + hContext) option \<Rightarrow> error + Context \<Rightarrow> bool" where
  "sameOutcome h (Some (Inl e)) (Inl e') = (e = e')"
| "sameOutcome h (Some (Inr c)) (Inr c') = sameEntries h c c'"
| "sameOutcome h ho r = False"

fun sameStruct :: "heap \<Rightarrow> hValue option option \<Rightarrow> Value option \<Rightarrow> bool" where
  "sameStruct h (Some None) None = True"
| "sameStruct h (Some (Some s)) (Some s') = (fst s = fst s' \<and> unfolds h (snd s) (snd s'))"
| "sameStruct h ho r = False"

definition agrees :: "heap \<Rightarrow> hval \<Rightarrow> gval \<Rightarrow> bool" where
  "agrees h v t = (\<exists>n. \<forall>m\<ge>n.
     (\<forall>fl. sameStruct h (asStruct_h m h (fl, v)) (asStruct (fl, t))) \<and>
     (\<forall>hctx ctx path fl. sameEntries h hctx ctx \<longrightarrow>
        sameOutcome h (censorFields_h m h hctx path (fl, v)) (censorFields ctx path (fl, t))))"

section \<open>Example values\<close>

definition fld :: "string \<Rightarrow> (string \<times> string) list \<Rightarrow> StructField" where
  "fld n t = \<lparr>Name = n, PkgPath = [], Tag = t, Anonymous = False\<rparr>"

definition hiddenFld :: "string \<Rightarrow> (string \<times> string) list \<Rightarrow> StructField" where
  "hiddenFld n t = \<lparr>Name = n, PkgPath = ''main'', Tag = t, Anonymous = False\<rparr>"

text \<open>\<^verbatim>\<open>struct{ name string }{"x"}\<close>\<close>

definition unexportedConfig :: gval where
  "unexportedConfig = VStruct [(hiddenFld ''name'' [], VString ''x'')]"

text \<open>The \<^verbatim>\<open>Config\<close> of the documentation comment of \<^verbatim>\<open>WithCensoredSecretFields\<close>.\<close>

definition docConfig :: gval where
  "docConfig = VStruct
     [(fld ''Username'' [(''json'', ''username'')], VString ''admin''),
      (fld ''Password'' [(''json'', ''password''), (''secret'', ''true'')], VString ''s3cr3t'')]"

text \<open>The \<^verbatim>\<open>Config\<close> of \<^verbatim>\<open>TestWithCensoredSecretFields\<close>.\<close>

definition testConfig :: gval where
  "testConfig = VStruct
     [(fld ''Username'' [(''json'', ''username'')], VString ''admin''),
      (fld ''Password'' [(''json'', ''password''), (''secret'', ''true'')],
         VString ''super_secret_password''),
      (fld ''APIKey'' [(''json'', ''api_key''), (''secret'', ''true'')],
         VString ''sk_test_1234567890''),
      (fld ''SubConfig'' [(''json'', ''sub_config'')], VPtr (VStruct
         [(fld ''PublicField'' [(''json'', ''public'')], VString ''visible''),
          (fld ''SecretField'' [(''json'', ''secret''), (''secret'', ''true'')],
             VString ''hidden'')])),
      (fld ''PublicData'' [(''json'', ''public_data'')], VString ''this is public'')]"

definition testConfig_out :: Context where
  "testConfig_out =
     [(''config.Username'', VString ''admin''),
      (''config.Password'', VString ''***''),
      (''config.APIKey'', VString ''***''),
      (''config.SubConfig.PublicField'', VString ''visible''),
      (''config.SubConfig.SecretField'', VString ''***''),
      (''config.PublicData'', VString ''this is public'')]"

text \<open>An unmarked field holding the placeholder text, and one repeating a marked value.\<close>

definition coincide :: gval where
  "coincide = VStruct
     [(fld ''A'' [], VString ''***''),
      (fld ''B'' [(''secret'', ''true'')], VString ''pw''),
      (fld ''C'' [], VString ''pw'')]"

definition coincide_out :: Context where
  "coincide_out =
     [(''cfg.A'', VString ''***''), (''cfg.B'', VString ''***''), (''cfg.C'', VString ''pw'')]"

text \<open>\<^verbatim>\<open>struct{ Name string; token string }{"root", "t"}\<close>\<close>

definition hiddenToken :: gval where
  "hiddenToken = VStruct
     [(fld ''Name'' [], VString ''root''), (hiddenFld ''token'' [], VString ''t'')]"

text \<open>\<^verbatim>\<open>Level1{Name: "root", Level2: nil}\<close>, with \<^verbatim>\<open>Level2\<close> of type \<^verbatim>\<open>*Level2\<close>.\<close>

definition nilNested :: gval where
  "nilNested = VStruct
     [(fld ''Name'' [(''json'', ''name'')], VString ''root''),
      (fld ''Level2'' [(''json'', ''level2'')], VNil)]"

text \<open>The value of \<^verbatim>\<open>TestWithCensoredSecretFieldsDeepNesting\<close>.\<close>

definition deepNesting :: gval where
  "deepNesting = VPtr (VStruct
     [(fld ''Name'' [(''json'', ''name'')], VString ''root''),
      (fld ''Level2'' [(''json'', ''level2'')], VPtr (VStruct
         [(fld ''Info'' [(''json'', ''info'')], VString ''middle''),
          (fld ''Level3'' [(''json'', ''level3'')], VPtr (VStruct
             [(fld ''Data'' [(''json'', ''data'')], VString ''deep_data''),
              (fld ''Secret'' [(''json'', ''secret''), (''secret'', ''true'')],
                 VString ''deep_secret'')]))])),
      (fld ''Token'' [(''json'', ''token''), (''secret'', ''true'')], VString ''secret_token'')])"

text \<open>A record-valued field that itself carries the marker.\<close>

definition credsField :: StructField where
  "credsField = fld ''Creds'' [(''secret'', ''true'')]"

definition credsValue :: gval where
  "credsValue = VStruct
     [(fld ''User'' [], VString ''u''), (fld ''Pass'' [(''secret'', ''true'')], VString ''p'')]"

text \<open>A record with one unexported, unmarked field, to sit under a marked field.\<close>

definition hiddenCreds :: gval where
  "hiddenCreds = VStruct [(hiddenFld ''user'' [], VString ''u'')]"

text \<open>An error context with one auxiliary pair, and a call stack that resolves frame 3.\<close>

definition failedCtx :: ErrCtx where
  "failedCtx = \<lparr>Err = Some ''boom'', Ctx = [(''manifest'', VString ''x'')]\<rparr>"

definition quietCtx :: ErrCtx where
  "quietCtx = \<lparr>Err = None, Ctx = [(''manifest'', VString ''x'')]\<rparr>"

definition someEvent :: "ErrCtx Event" where
  "someEvent = \<lparr>evCtx = failedCtx, evFields = [(''document'', VString ''d'')]\<rparr>"

definition quietEvent :: "ErrCtx Event" where
  "quietEvent = \<lparr>evCtx = quietCtx, evFields = [(''document'', VString ''d'')]\<rparr>"

definition mainCaller :: "nat \<Rightarrow> (string \<times> int) option" where
  "mainCaller skip = (if skip = 3 then Some (''main.go'', 42) else None)"

definition noCaller :: "nat \<Rightarrow> (string \<times> int) option" where
  "noCaller skip = None"

text \<open>
  Stores in which every cell holds the same node. \<^verbatim>\<open>loopNode\<close> is
  \<^verbatim>\<open>type Node struct{ Next *Node }\<close> with \<^verbatim>\<open>n.Next = n\<close>; \<^verbatim>\<open>panicNode\<close> has an unexported
  field in front; \<^verbatim>\<open>endNode\<close> has a nil \<^verbatim>\<open>Next\<close>, and \<^verbatim>\<open>headNode\<close> points at it.
\<close>

definition loopNode :: hval where
  "loopNode = HStruct [(fld ''Next'' [], HPtr 0)]"

definition loopHeap :: heap where
  "loopHeap a = loopNode"

definition panicNode :: hval where
  "panicNode = HStruct [(hiddenFld ''x'' [], HInt 1), (fld ''Next'' [], HPtr 0)]"

definition panicHeap :: heap where
  "panicHeap a = panicNode"

definition endNode :: hval where
  "endNode = HStruct [(fld ''Name'' [], HString ''last''), (fld ''Next'' [], HNil)]"

definition endHeap :: heap where
  "endHeap a = endNode"

definition headNode :: hval where
  "headNode = HStruct [(fld ''Name'' [], HString ''first''), (fld ''Next'' [], HPtr 0)]"

section \<open>Facts about the redactor\<close>

lemma asStruct_None_iff: "asStruct (fl, v) = None \<longleftrightarrow> \<not> normalizes v"
  unfolding normalizes_def
  by (induction "(fl, v)" arbitrary: v rule: asStruct.induct) auto

lemma asStruct_Some:
  "asStruct (fl, v) = Some (fl', v') \<Longrightarrow> fl' = fl \<and> (\<exists>fs. v' = VStruct fs)"
  by (induction "(fl, v)" arbitrary: v rule: asStruct.induct) auto

lemma asStruct_funpow: "asStruct (fl, (VPtr ^^ n) v) = asStruct (fl, v)"
  by (induction n) simp_all

lemma leaves_not_normalizes: "\<not> normalizes v \<Longrightarrow> leaves path fl v = []"
  unfolding normalizes_def
  by (induction path fl v rule: leaves.induct) auto

lemma leaves_asStruct:
  "asStruct (fl, v) = Some (fl', v') \<Longrightarrow> leaves path fl v = leaves path fl v'"
  by (induction "(fl, v)" arbitrary: v rule: asStruct.induct) auto

lemma leaves_Cons:
  "leaves path fl (VStruct ((f, x) # rest)) =
     (if normalizes x then leaves (path @ ''.'' @ Name f) (Field_flag fl f) x
      else [(path @ ''.'' @ Name f, f, (Field_flag fl f, x))]) @ leaves path fl (VStruct rest)"
  by simp

lemma leaves_append:
  "leaves path fl (VStruct (xs @ ys)) = leaves path fl (VStruct xs) @ leaves path fl (VStruct ys)"
  by simp

text \<open>
  The walker against the specification's leaves: it returns the accumulator extended by
  one entry per leaf, in order, unless some unmarked leaf is not readable; then it panics.
\<close>

lemma censor_leaves:
  "censorFields ctx path v =
     (if list_all readable (leaves path (fst v) (snd v))
      then Inr (ctx @ map emit (leaves path (fst v) (snd v)))
      else Inl PanicUnexported)"
  "censorLoop ctx path fl fs =
     (if list_all readable (leaves path fl (VStruct fs))
      then Inr (ctx @ map emit (leaves path fl (VStruct fs)))
      else Inl PanicUnexported)"
proof (induction ctx path v and ctx path fl fs rule: censorFields_censorLoop.induct)
  case (1 ctx path v)
  obtain fl x where v: "v = (fl, x)" by (cases v)
  show ?case
  proof (cases "asStruct v")
    case None
    then have "leaves path fl x = []"
      using v asStruct_None_iff leaves_not_normalizes by blast
    then show ?thesis using None v by simp
  next
    case (Some s)
    then obtain fs where s: "s = (fl, VStruct fs)"
      using v by (cases s) (auto dest: asStruct_Some)
    have "leaves path fl x = leaves path fl (VStruct fs)"
      using leaves_asStruct Some v s by blast
    then show ?thesis using 1 Some v s by simp
  qed
next
  case (2 ctx path fl)
  then show ?case by simp
next
  case (3 ctx path fl fieldType x rest)
  let ?fv = "(Field_flag fl fieldType, x)"
  note defs = readable_def emit_def leafPath_def leafField_def leafFlag_def leafValue_def
  show ?case
  proof (cases "asStruct ?fv")
    case None
    then have nn: "\<not> normalizes x" by (simp add: asStruct_None_iff)
    show ?thesis
    proof (cases "isFieldSecret fieldType")
      case True
      then show ?thesis using 3(1) [OF refl None refl True] None nn
        by (simp add: leaves_Cons defs Str_def del: leaves.simps)
    next
      case False
      show ?thesis
      proof (cases "flagRO (Field_flag fl fieldType)")
        case True
        then show ?thesis using None nn False
          by (simp add: leaves_Cons defs Interface_def del: leaves.simps)
      next
        case ro: False
        then have "Interface ?fv = Inr x" by (simp add: Interface_def)
        from 3(2) [OF refl None refl False this]
        show ?thesis using None nn False ro \<open>Interface ?fv = Inr x\<close>
          by (simp add: leaves_Cons defs Any_def del: leaves.simps)
      qed
    qed
  next
    case (Some s)
    then have n: "normalizes x"
      using asStruct_None_iff [of "Field_flag fl fieldType" x] by simp
    obtain fs where s: "s = (Field_flag fl fieldType, VStruct fs)"
      using Some by (cases s) (auto dest: asStruct_Some)
    have lv: "leaves (path @ ''.'' @ Name fieldType) (Field_flag fl fieldType) x
            = leaves (path @ ''.'' @ Name fieldType) (Field_flag fl fieldType) (VStruct fs)"
      using leaves_asStruct Some s by blast
    note ih1 = 3(3) [OF refl Some]
    show ?thesis
    proof (cases "censorFields ctx (path @ ''.'' @ Name fieldType) s")
      case (Inl e)
      then show ?thesis using ih1 Some n s lv
        by (simp add: leaves_Cons del: leaves.simps censorFields.simps split: if_splits)
    next
      case (Inr c)
      from 3(4) [OF refl Some Inr]
      show ?thesis using ih1 Inr Some n s lv
        by (simp add: leaves_Cons del: leaves.simps censorFields.simps split: if_splits)
    qed
  qed
qed

lemma censorFields_Inr:
  "censorFields ctx path (fl, v) = Inr ctx' \<Longrightarrow> ctx' = ctx @ map emit (leaves path fl v)"
  using censor_leaves(1) [of ctx path "(fl, v)"] by (simp split: if_splits)

lemma censorLoop_append:
  "censorLoop ctx path fl (xs @ ys) =
     (case censorLoop ctx path fl xs of Inl e \<Rightarrow> Inl e | Inr c \<Rightarrow> censorLoop c path fl ys)"
  by (simp add: censor_leaves(2) del: leaves.simps add: leaves_append)

lemma joinPath_Cons: "joinPath path (n # segs) = joinPath (path @ ''.'' @ n) segs"
  by (simp add: joinPath_def)

lemma leaves_paths: "map leafPath (leaves path fl v) = map (joinPath path) (leafSegments v)"
proof (induction path fl v rule: leaves.induct)
  case (2 path fl fs)
  have "map leafPath (case p of (f, x) \<Rightarrow>
            if normalizes x then leaves (path @ ''.'' @ Name f) (Field_flag fl f) x
            else [(path @ ''.'' @ Name f, f, (Field_flag fl f, x))])
      = map (joinPath path) (case p of (f, x) \<Rightarrow>
            if normalizes x then map ((#) (Name f)) (leafSegments x) else [[Name f]])"
    if "p \<in> set fs" for p
  proof -
    obtain f x where p: "p = (f, x)" by (cases p)
    show ?thesis
    proof (cases "normalizes x")
      case True
      from 2 [OF that p [symmetric] True]
      have "map leafPath (leaves (path @ ''.'' @ Name f) (Field_flag fl f) x)
          = map (joinPath (path @ ''.'' @ Name f)) (leafSegments x)" .
      also have "\<dots> = map (joinPath path) (map ((#) (Name f)) (leafSegments x))"
        by (simp add: joinPath_Cons)
      finally show ?thesis using p True by simp
    next
      case False
      then show ?thesis using p by (simp add: joinPath_def leafPath_def)
    qed
  qed
  then have "map (\<lambda>p. map leafPath (case p of (f, x) \<Rightarrow>
            if normalizes x then leaves (path @ ''.'' @ Name f) (Field_flag fl f) x
            else [(path @ ''.'' @ Name f, f, (Field_flag fl f, x))])) fs
      = map (\<lambda>p. map (joinPath path) (case p of (f, x) \<Rightarrow>
            if normalizes x then map ((#) (Name f)) (leafSegments x) else [[Name f]])) fs"
    by (rule map_cong [OF refl])
  then show ?case
    by (simp only: leaves.simps leafSegments.simps map_concat map_map comp_def)
qed simp_all

lemma leaves_extend: "l \<in> set (leaves path fl v) \<Longrightarrow> \<exists>s. leafPath l = path @ ''.'' @ s"
proof (induction path fl v arbitrary: l rule: leaves.induct)
  case (2 path fl fs)
  then obtain f x where fx: "(f, x) \<in> set fs" and
    l: "l \<in> set (if normalizes x then leaves (path @ ''.'' @ Name f) (Field_flag fl f) x
                 else [(path @ ''.'' @ Name f, f, (Field_flag fl f, x))])"
    by auto
  show ?case
  proof (cases "normalizes x")
    case True
    with l have "l \<in> set (leaves (path @ ''.'' @ Name f) (Field_flag fl f) x)" by simp
    from 2(1) [OF fx refl True this]
    obtain s where "leafPath l = (path @ ''.'' @ Name f) @ ''.'' @ s" by blast
    then have "leafPath l = path @ ''.'' @ (Name f @ ''.'' @ s)" by simp
    then show ?thesis by blast
  next
    case False
    with l show ?thesis by (simp add: leafPath_def)
  qed
qed simp_all

lemma leaves_dead: "l \<in> set (leaves path fl v) \<Longrightarrow> \<not> normalizes (leafValue l)"
proof (induction path fl v arbitrary: l rule: leaves.induct)
  case (2 path fl fs)
  then obtain f x where fx: "(f, x) \<in> set fs" and
    l: "l \<in> set (if normalizes x then leaves (path @ ''.'' @ Name f) (Field_flag fl f) x
                 else [(path @ ''.'' @ Name f, f, (Field_flag fl f, x))])"
    by auto
  show ?case
  proof (cases "normalizes x")
    case True
    with l have "l \<in> set (leaves (path @ ''.'' @ Name f) (Field_flag fl f) x)" by simp
    from 2(1) [OF fx refl True this] show ?thesis .
  next
    case False
    with l show ?thesis by (simp add: leafValue_def)
  qed
qed simp_all

lemma Field_flag_Tag: "Field_flag fl (f\<lparr>Tag := t\<rparr>) = Field_flag fl f"
  by (simp add: Field_flag_def IsExported_def)

lemma Run_fields:
  "evFields (Run From Caller e level msg) =
     evFields e @ errFields (From (evCtx e)) @
       (if level = ErrorLevel \<or> level = FatalLevel \<or> level = PanicLevel
        then (case Caller 3 of
                Some (file, line) \<Rightarrow> [(''file'', VString (file @ '':'' @ itoa line))]
              | None \<Rightarrow> [])
        else [])"
  by (auto simp: Run_def Let_def errFields_def Event_Err_def Event_Fields_def Event_Str_def
      split: option.splits)

lemma itoa_42: "itoa 42 = ''42''"
  by (simp add: itoa_def natToDec.simps [of 42] natToDec.simps [of 4] digitChar_def)

section \<open>Facts about the redactor over a store\<close>

lemma acyclic_leaf:
  "acyclic_from h HInvalid" "acyclic_from h (HBool b)" "acyclic_from h (HInt i)"
  "acyclic_from h (HString s)" "acyclic_from h (HOpaque k)" "acyclic_from h HNil"
  by (rule acyclic_from.intros, erule child.cases, simp_all)+

lemma acyclic_ptr: "acyclic_from h (h a) \<Longrightarrow> acyclic_from h (HPtr a)"
  by (rule acyclic_from.intros) (auto elim: child.cases)

lemma acyclic_struct:
  "(\<And>f x. (f, x) \<in> set fs \<Longrightarrow> acyclic_from h x) \<Longrightarrow> acyclic_from h (HStruct fs)"
  by (rule acyclic_from.intros) (auto elim: child.cases)

lemma acyclic_child: "acyclic_from h v \<Longrightarrow> child h v w \<Longrightarrow> acyclic_from h w"
  by (erule acyclic_from.cases) blast

lemma asStruct_h_dead: "asStruct_h n h (fl, v) = Some None \<Longrightarrow> acyclic_from h v"
proof (induction n h "(fl, v)" arbitrary: v rule: asStruct_h.induct)
  case (2 n h a)
  then show ?case by (simp add: acyclic_ptr)
qed (simp_all add: acyclic_leaf)

lemma asStruct_h_struct:
  "asStruct_h n h (fl, v) = Some (Some (fl', s)) \<Longrightarrow>
     fl' = fl \<and> (\<exists>fs. s = HStruct fs) \<and> (acyclic_from h s \<longrightarrow> acyclic_from h v)"
proof (induction n h "(fl, v)" arbitrary: v rule: asStruct_h.induct)
  case (2 n h a)
  then show ?case by (simp add: acyclic_ptr)
qed auto

lemma loop_acyclic:
  assumes IH: "\<forall>ctx path v ctx'. censorFields_h n h ctx path v = Some (Inr ctx') \<longrightarrow> acyclic_from h (snd v)"
  shows "censorLoop_h n h ctx path fl fs = Some (Inr ctx') \<Longrightarrow> (f, x) \<in> set fs \<Longrightarrow> acyclic_from h x"
proof (induction fs arbitrary: ctx)
  case Nil
  then show ?case by simp
next
  case (Cons a rest)
  obtain g y where a: "a = (g, y)" by (cases a)
  let ?fv = "(Field_flag fl g, y)"
  from Cons.prems(1) a obtain r where r: "asStruct_h n h ?fv = Some r"
    by (auto simp: Let_def split: option.splits)
  have "acyclic_from h y \<and> (\<exists>c. censorLoop_h n h c path fl rest = Some (Inr ctx'))"
  proof (cases r)
    case None
    with r have dead: "asStruct_h n h ?fv = Some None" by simp
    then have "acyclic_from h y" by (rule asStruct_h_dead)
    moreover have "\<exists>c. censorLoop_h n h c path fl rest = Some (Inr ctx')"
      using Cons.prems(1) a dead by (auto simp: Let_def split: if_splits sum.splits)
    ultimately show ?thesis by simp
  next
    case (Some s)
    with r have st: "asStruct_h n h ?fv = Some (Some s)" by simp
    then obtain c where nested: "censorFields_h n h ctx (path @ ''.'' @ Name g) s = Some (Inr c)"
      and loop: "censorLoop_h n h c path fl rest = Some (Inr ctx')"
      using Cons.prems(1) a by (auto simp: Let_def split: option.splits sum.splits)
    from IH nested have "acyclic_from h (snd s)" by blast
    moreover from asStruct_h_struct [of n h "Field_flag fl g" y "fst s" "snd s"] st
    have "acyclic_from h (snd s) \<longrightarrow> acyclic_from h y" by simp
    ultimately show ?thesis using loop by blast
  qed
  then show ?case using Cons.IH Cons.prems(2) a by auto
qed

lemma returns_acyclic:
  "censorFields_h n h ctx path v = Some (Inr ctx') \<Longrightarrow> acyclic_from h (snd v)"
proof (induction n arbitrary: ctx path v ctx')
  case 0
  then show ?case by simp
next
  case (Suc n)
  obtain fl0 v0 where v: "v = (fl0, v0)" by (cases v)
  from Suc.prems obtain r where r: "asStruct_h (Suc n) h v = Some r"
    by (auto split: option.splits)
  show ?case
  proof (cases r)
    case None
    then show ?thesis using r v asStruct_h_dead by fastforce
  next
    case (Some s)
    obtain fl s' where s: "s = (fl, s')" by (cases s)
    with Some r v
    have a: "asStruct_h (Suc n) h (fl0, v0) = Some (Some (fl, s'))" by simp
    from asStruct_h_struct [OF a] obtain fs where
      fs: "s' = HStruct fs" and ac: "acyclic_from h s' \<longrightarrow> acyclic_from h v0" by blast
    have loop: "censorLoop_h n h ctx path fl fs = Some (Inr ctx')"
      using Suc.prems a v fs by simp
    have "\<forall>ctx path v ctx'. censorFields_h n h ctx path v = Some (Inr ctx')
            \<longrightarrow> acyclic_from h (snd v)"
      using Suc.IH by blast
    from loop_acyclic [OF this loop]
    have "acyclic_from h (HStruct fs)" by (blast intro: acyclic_struct)
    then show ?thesis using ac fs v by simp
  qed
qed

lemma acyclic_reach: "(child h)\<^sup>*\<^sup>* v s \<Longrightarrow> acyclic_from h v \<Longrightarrow> acyclic_from h s"
  by (induction rule: rtranclp_induct) (auto intro: acyclic_child)

lemma acyclic_no_loop: "acyclic_from h s \<Longrightarrow> \<not> (child h)\<^sup>+\<^sup>+ s s"
proof (induction rule: acyclic_from.induct)
  case (1 v)
  show ?case
  proof
    assume "(child h)\<^sup>+\<^sup>+ v v"
    then obtain w where w: "child h v w" and wv: "(child h)\<^sup>*\<^sup>* w v"
      by (auto dest: tranclpD)
    then have "(child h)\<^sup>+\<^sup>+ w w" by (meson rtranclp_into_tranclp1)
    with 1 w show False by blast
  qed
qed

lemma acyclic_not_cyclic: "acyclic_from h v \<Longrightarrow> \<not> cyclic h v"
  unfolding cyclic_def using acyclic_reach acyclic_no_loop by blast

lemma asStruct_h_mono: "asStruct_h n h v = Some r \<Longrightarrow> asStruct_h (Suc n) h v = Some r"
  by (induction n h v rule: asStruct_h.induct) auto

lemma asStruct_h_idem:
  "asStruct_h n h (fl, v) = Some (Some s) \<Longrightarrow> asStruct_h (Suc k) h s = Some (Some s)"
  by (induction n h "(fl, v)" arbitrary: v rule: asStruct_h.induct) auto

lemma censorFields_h_via_asStruct:
  assumes "asStruct_h (Suc m) h v = Some (Some s)"
  shows "censorFields_h (Suc m) h ctx path v = censorFields_h (Suc m) h ctx path s"
proof -
  obtain fl x where v: "v = (fl, x)" by (cases v)
  from asStruct_h_idem [of "Suc m" h fl x s m] assms v
  have "asStruct_h (Suc m) h s = Some (Some s)" by simp
  with assms show ?thesis by simp
qed

lemma asStruct_h_scalar:
  "\<forall>a. v \<noteq> HPtr a \<Longrightarrow> \<forall>fs. v \<noteq> HStruct fs \<Longrightarrow> asStruct_h (Suc k) h (fl, v) = Some None"
  by (cases v) simp_all

lemma loop_ends:
  "\<forall>p\<in>set fs. walk_ends h (snd p) \<Longrightarrow>
   \<exists>n. \<forall>m\<ge>n. \<forall>ctx path fl. censorLoop_h m h ctx path fl fs \<noteq> None"
proof (induction fs)
  case Nil
  then show ?case by simp
next
  case (Cons a rest)
  obtain g y where a: "a = (g, y)" by (cases a)
  from Cons.prems a have "walk_ends h y" by simp
  then obtain n1 where n1: "\<And>m ctx path fl. m \<ge> n1 \<Longrightarrow>
      censorFields_h m h ctx path (fl, y) \<noteq> None \<and> asStruct_h m h (fl, y) \<noteq> None"
    unfolding walk_ends_def by blast
  have "\<forall>p\<in>set rest. walk_ends h (snd p)" using Cons.prems by simp
  from Cons.IH [OF this] obtain n2 where
    n2: "\<And>m ctx path fl. m \<ge> n2 \<Longrightarrow> censorLoop_h m h ctx path fl rest \<noteq> None"
    by blast
  have "censorLoop_h m h ctx path fl ((g, y) # rest) \<noteq> None" if m: "m \<ge> max n1 n2" for m ctx path fl
  proof -
    let ?fv = "(Field_flag fl g, y)"
    let ?p = "path @ ''.'' @ Name g"
    from m have m1: "m \<ge> n1" and m2: "m \<ge> n2" by simp_all
    from n1 [OF m1] obtain r where r: "asStruct_h m h ?fv = Some r" by blast
    show ?thesis
    proof (cases r)
      case None
      then show ?thesis using r n2 [OF m2]
        by (simp add: Let_def split: sum.splits)
    next
      case (Some s)
      with r have st: "asStruct_h m h ?fv = Some (Some s)" by simp
      then obtain k where k: "m = Suc k" by (cases m) auto
      from censorFields_h_via_asStruct [of k h ?fv s ctx ?p] st k n1 [OF m1, of ctx ?p "Field_flag fl g"]
      have "censorFields_h m h ctx ?p s \<noteq> None" by simp
      then show ?thesis using st n2 [OF m2]
        by (auto simp: Let_def split: sum.splits)
    qed
  qed
  then show ?case using a by blast
qed

lemma acyclic_walk_ends: "acyclic_from h v \<Longrightarrow> walk_ends h v"
proof (induction rule: acyclic_from.induct)
  case (1 v)
  consider (HPtr) a where "v = HPtr a" | (HStruct) fs where "v = HStruct fs"
    | (False) "(\<forall>a. v \<noteq> HPtr a) \<and> (\<forall>fs. v \<noteq> HStruct fs)" by blast
  then show ?case
  proof cases
    case (HPtr a)
    then have "walk_ends h (h a)" using 1 child_ptr by blast
    then obtain n where n: "\<And>m ctx path fl. m \<ge> n \<Longrightarrow>
      censorFields_h m h ctx path (fl, h a) \<noteq> None \<and> asStruct_h m h (fl, h a) \<noteq> None"
      unfolding walk_ends_def by blast
    have "censorFields_h m h ctx path (fl, HPtr a) \<noteq> None \<and> asStruct_h m h (fl, HPtr a) \<noteq> None"
      if m: "m \<ge> Suc n" for m ctx path fl
    proof -
      from m obtain k where k: "m = Suc k" "k \<ge> n" by (cases m) auto
      from n [OF k(2)] obtain r where r: "asStruct_h k h (fl, h a) = Some r" by blast
      then have r': "asStruct_h (Suc k) h (fl, h a) = Some r" by (rule asStruct_h_mono)
      have "censorFields_h (Suc k) h ctx path (fl, HPtr a) = censorFields_h (Suc k) h ctx path (fl, h a)"
        using r r' by simp
      moreover have "censorFields_h (Suc k) h ctx path (fl, h a) \<noteq> None"
        using n [of "Suc k"] k(2) by simp
      ultimately show ?thesis using k r by simp
    qed
    then show ?thesis unfolding walk_ends_def HPtr by blast
  next
    case (HStruct fs)
    have "\<forall>p\<in>set fs. walk_ends h (snd p)"
      using 1 HStruct child_field by fastforce
    from loop_ends [OF this] obtain n where
      n: "\<And>m ctx path fl. m \<ge> n \<Longrightarrow> censorLoop_h m h ctx path fl fs \<noteq> None" by blast
    have "censorFields_h m h ctx path (fl, HStruct fs) \<noteq> None \<and> asStruct_h m h (fl, HStruct fs) \<noteq> None"
      if m: "m \<ge> Suc n" for m ctx path fl
    proof -
      from m obtain k where k: "m = Suc k" "k \<ge> n" by (cases m) auto
      then show ?thesis using n [OF k(2)] by simp
    qed
    then show ?thesis unfolding walk_ends_def HStruct by blast
  next
    case other: False
    have "censorFields_h m h ctx path (fl, v) \<noteq> None \<and> asStruct_h m h (fl, v) \<noteq> None"
      if m: "m \<ge> Suc 0" for m ctx path fl
    proof -
      from m obtain k where k: "m = Suc k" by (cases m) auto
      from other have "asStruct_h (Suc k) h (fl, v) = Some None"
        by (intro asStruct_h_scalar) auto
      then show ?thesis using k by simp
    qed
    then show ?thesis unfolding walk_ends_def by blast
  qed
qed

lemma Field_flag_exported:
  "IsExported f \<Longrightarrow> \<not> flagStickyRO fl \<Longrightarrow>
     \<not> flagRO (Field_flag fl f) \<and> \<not> flagStickyRO (Field_flag fl f)"
  by (simp add: Field_flag_def flagRO_def)

lemma reachExported_child: "reachExported h v \<Longrightarrow> child h v w \<Longrightarrow> reachExported h w"
  unfolding reachExported_def by (meson converse_rtranclp_into_rtranclp)

lemma reachExported_self: "reachExported h v \<Longrightarrow> fieldsExported v"
  unfolding reachExported_def by blast

lemma asStruct_h_reachExported:
  "asStruct_h n h (fl, v) = Some (Some s) \<Longrightarrow> reachExported h v
     \<Longrightarrow> fst s = fl \<and> reachExported h (snd s) \<and> (\<exists>fs. snd s = HStruct fs)"
proof (induction n h "(fl, v)" arbitrary: v rule: asStruct_h.induct)
  case (2 n h a)
  from 2(3) have "reachExported h (h a)" by (rule reachExported_child) (rule child_ptr)
  with 2 show ?case by simp
qed auto

lemma loop_no_panic:
  assumes IH: "\<forall>ctx path fl v. \<not> flagStickyRO fl \<longrightarrow> reachExported h v
                 \<longrightarrow> censorFields_h n h ctx path (fl, v) \<noteq> Some (Inl e)"
    and fl: "\<not> flagStickyRO fl"
  shows "\<forall>p\<in>set fs. IsExported (fst p) \<and> reachExported h (snd p)
         \<Longrightarrow> censorLoop_h n h ctx path fl fs \<noteq> Some (Inl e)"
proof (induction fs arbitrary: ctx)
  case Nil
  then show ?case by simp
next
  case (Cons a rest)
  obtain g y where a: "a = (g, y)" by (cases a)
  let ?fv = "(Field_flag fl g, y)"
  from Cons.prems a have g: "IsExported g" and y: "reachExported h y"
    and rest: "\<forall>p\<in>set rest. IsExported (fst p) \<and> reachExported h (snd p)" by simp_all
  from Field_flag_exported [OF g fl]
  have ro: "\<not> flagRO (Field_flag fl g)" and st: "\<not> flagStickyRO (Field_flag fl g)" by simp_all
  note loop = Cons.IH [OF rest]
  show ?case
  proof (cases "asStruct_h n h ?fv")
    case None
    then show ?thesis using a by simp
  next
    case (Some r)
    show ?thesis
    proof (cases r)
      case None
      then show ?thesis using Some a ro loop
        by (simp add: Let_def Interface_h_def)
    next
      case (Some s)
      with \<open>asStruct_h n h ?fv = Some r\<close> have s: "asStruct_h n h ?fv = Some (Some s)" by simp
      from asStruct_h_reachExported [OF s y]
      have "fst s = Field_flag fl g" "reachExported h (snd s)" by simp_all
      with IH st have "censorFields_h n h ctx (path @ ''.'' @ Name g) s \<noteq> Some (Inl e)"
        by (metis prod.collapse)
      then show ?thesis using s a loop
        by (auto simp: Let_def split: option.splits sum.splits)
    qed
  qed
qed

lemma exported_no_panic:
  "\<not> flagStickyRO fl \<Longrightarrow> reachExported h v
         \<Longrightarrow> censorFields_h n h ctx path (fl, v) \<noteq> Some (Inl e)"
proof (induction n arbitrary: ctx path fl v)
  case 0
  then show ?case by simp
next
  case (Suc n)
  show ?case
  proof (cases "asStruct_h (Suc n) h (fl, v)")
    case None
    then show ?thesis by simp
  next
    case (Some r)
    show ?thesis
    proof (cases r)
      case None
      then show ?thesis using Some by simp
    next
      case (Some s)
      with \<open>asStruct_h (Suc n) h (fl, v) = Some r\<close>
      have s: "asStruct_h (Suc n) h (fl, v) = Some (Some s)" by simp
      from asStruct_h_reachExported [OF s Suc.prems(2)] obtain fs where
        fs: "s = (fl, HStruct fs)" and ex: "reachExported h (HStruct fs)"
        by (cases s) auto
      have fields: "\<forall>p\<in>set fs. IsExported (fst p) \<and> reachExported h (snd p)"
      proof
        fix p assume p: "p \<in> set fs"
        then have "(fst p, snd p) \<in> set fs" by simp
        then have "child h (HStruct fs) (snd p)" by (rule child_field)
        with ex have "reachExported h (snd p)" by (rule reachExported_child)
        moreover from reachExported_self [OF ex] p have "IsExported (fst p)" by simp
        ultimately show "IsExported (fst p) \<and> reachExported h (snd p)" by simp
      qed
      have "\<forall>ctx path fl v. \<not> flagStickyRO fl \<longrightarrow> reachExported h v
                 \<longrightarrow> censorFields_h n h ctx path (fl, v) \<noteq> Some (Inl e)"
        using Suc.IH by blast
      from loop_no_panic [OF this Suc.prems(1) fields]
      have "censorLoop_h n h ctx path fl fs \<noteq> Some (Inl e)" .
      then show ?thesis using s fs by simp
    qed
  qed
qed

lemma loop_reach:
  "(child loopHeap)\<^sup>*\<^sup>* loopNode w \<Longrightarrow> w = loopNode \<or> w = HPtr 0"
  by (induction rule: rtranclp_induct)
     (auto simp: loopNode_def loopHeap_def elim!: child.cases)

lemma loop_reachExported: "reachExported loopHeap loopNode"
proof -
  have "fieldsExported w" if "(child loopHeap)\<^sup>*\<^sup>* loopNode w" for w
  proof -
    from loop_reach [OF that] show ?thesis
      by (auto simp: loopNode_def fld_def IsExported_def)
  qed
  then show ?thesis unfolding reachExported_def by blast
qed

lemma censorLoop_h_mono_aux:
  assumes IH: "\<forall>ctx path v r. censorFields_h n h ctx path v = Some r
                 \<longrightarrow> censorFields_h (Suc n) h ctx path v = Some r"
  shows "censorLoop_h n h ctx path fl fs = Some r \<Longrightarrow> censorLoop_h (Suc n) h ctx path fl fs = Some r"
proof (induction fs arbitrary: ctx)
  case Nil
  then show ?case by simp
next
  case (Cons a rest)
  obtain g y where a: "a = (g, y)" by (cases a)
  let ?fv = "(Field_flag fl g, y)"
  from Cons.prems a obtain q where q: "asStruct_h n h ?fv = Some q"
    by (auto simp: Let_def split: option.splits)
  then have q': "asStruct_h (Suc n) h ?fv = Some q" by (rule asStruct_h_mono)
  show ?case
  proof (cases q)
    case None
    then show ?thesis using Cons.prems Cons.IH a q q'
      by (auto simp: Let_def simp del: asStruct_h.simps split: sum.splits if_splits)
  next
    case (Some s)
    from Cons.prems a q Some obtain w where
      w: "censorFields_h n h ctx (path @ ''.'' @ Name g) s = Some w"
      by (auto simp: Let_def split: option.splits)
    with IH have w': "censorFields_h (Suc n) h ctx (path @ ''.'' @ Name g) s = Some w" by blast
    show ?thesis using Cons.prems Cons.IH a q q' Some w w'
      by (cases w) (auto simp: Let_def simp del: asStruct_h.simps censorFields_h.simps)
  qed
qed

lemma censorFields_h_mono:
  "censorFields_h n h ctx path v = Some r \<Longrightarrow> censorFields_h (Suc n) h ctx path v = Some r"
proof (induction n arbitrary: ctx path v r)
  case 0
  then show ?case by simp
next
  case (Suc n)
  from Suc.prems obtain q where q: "asStruct_h (Suc n) h v = Some q"
    by (auto split: option.splits)
  then have q': "asStruct_h (Suc (Suc n)) h v = Some q" by (rule asStruct_h_mono)
  have IH: "\<forall>ctx path v r. censorFields_h n h ctx path v = Some r
                 \<longrightarrow> censorFields_h (Suc n) h ctx path v = Some r"
    using Suc.IH by blast
  have "censorFields_h (Suc (Suc n)) h ctx path v =
        (case q of None \<Rightarrow> Some (Inr ctx)
         | Some (fl, HStruct fs) \<Rightarrow> censorLoop_h (Suc n) h ctx path fl fs
         | Some (fl, _) \<Rightarrow> Some (Inl PanicNotStruct))"
    using q' by (simp del: asStruct_h.simps)
  moreover have "censorFields_h (Suc n) h ctx path v =
        (case q of None \<Rightarrow> Some (Inr ctx)
         | Some (fl, HStruct fs) \<Rightarrow> censorLoop_h n h ctx path fl fs
         | Some (fl, _) \<Rightarrow> Some (Inl PanicNotStruct))"
    using q by (simp del: asStruct_h.simps)
  ultimately show ?case using Suc.prems censorLoop_h_mono_aux [OF IH]
    by (auto split: option.splits prod.splits hval.splits)
qed

lemma censorFields_h_stable:
  "censorFields_h n h ctx path v = Some r \<Longrightarrow> n \<le> m \<Longrightarrow> censorFields_h m h ctx path v = Some r"
proof -
  assume r: "censorFields_h n h ctx path v = Some r" and le: "n \<le> m"
  have "censorFields_h (n + k) h ctx path v = Some r" for k
    by (induction k) (simp_all add: r censorFields_h_mono del: censorFields_h.simps)
  from this [of "m - n"] le show ?thesis by simp
qed

text \<open>
  Termination of the walk. On every value whose reference graph is acyclic the walk
  terminates: from some fuel on it yields one and the same outcome. No cycle detection or
  depth bound is applied: on a cyclic value the walk never returns an accumulator, so at
  every fuel it is still running or has panicked, and when every struct reachable from
  the value has exported fields only it is still running at every fuel.
\<close>

lemma walk_termination:
  "(acyclic_from h v \<longrightarrow> (\<exists>n r. \<forall>m\<ge>n. censorFields_h m h ctx path (fl, v) = Some r))
   \<and> (cyclic h v \<longrightarrow> censorFields_h n h ctx path (fl, v) \<noteq> Some (Inr ctx'))
   \<and> (cyclic h v \<and> reachExported h v \<and> \<not> flagStickyRO fl
        \<longrightarrow> censorFields_h n h ctx path (fl, v) = None)"
proof (intro conjI impI)
  assume "acyclic_from h v"
  then have "walk_ends h v" by (rule acyclic_walk_ends)
  then obtain k where "censorFields_h k h ctx path (fl, v) \<noteq> None"
    unfolding walk_ends_def by blast
  then obtain r where "censorFields_h k h ctx path (fl, v) = Some r" by blast
  then have "\<forall>m\<ge>k. censorFields_h m h ctx path (fl, v) = Some r"
    using censorFields_h_stable by blast
  then show "\<exists>n r. \<forall>m\<ge>n. censorFields_h m h ctx path (fl, v) = Some r" by blast
next
  assume c: "cyclic h v"
  show "censorFields_h n h ctx path (fl, v) \<noteq> Some (Inr ctx')"
  proof
    assume "censorFields_h n h ctx path (fl, v) = Some (Inr ctx')"
    then have "acyclic_from h v" using returns_acyclic by fastforce
    with c show False using acyclic_not_cyclic by blast
  qed
next
  assume a: "cyclic h v \<and> reachExported h v \<and> \<not> flagStickyRO fl"
  have "censorFields_h n h ctx path (fl, v) \<noteq> Some (Inr c)" for c
  proof
    assume "censorFields_h n h ctx path (fl, v) = Some (Inr c)"
    then have "acyclic_from h v" using returns_acyclic by fastforce
    with a show False using acyclic_not_cyclic by blast
  qed
  moreover have "censorFields_h n h ctx path (fl, v) \<noteq> Some (Inl e)" for e
    using a exported_no_panic by blast
  ultimately show "censorFields_h n h ctx path (fl, v) = None"
    by (metis not_None_eq old.sum.exhaust)
qed

lemma cyclic_walk_loops_or_panics:
  assumes "cyclic h v"
  shows "censorFields_h n h ctx path (fl, v) = None
         \<or> (\<exists>e. censorFields_h n h ctx path (fl, v) = Some (Inl e))"
proof (cases "censorFields_h n h ctx path (fl, v)")
  case None
  then show ?thesis by simp
next
  case (Some r)
  show ?thesis
  proof (cases r)
    case (Inl e)
    with Some show ?thesis by simp
  next
    case (Inr c)
    with Some have "acyclic_from h v" using returns_acyclic by fastforce
    with assms show ?thesis using acyclic_not_cyclic by blast
  qed
qed

lemma walk_termination_examples:
  "acyclic_from endHeap headNode
   \<and> (\<exists>n r. \<forall>m\<ge>n. censorFields_h m endHeap [] ''n'' (noRO, headNode) = Some r)
   \<and> censorFields_h 3 endHeap [] ''n'' (noRO, headNode) =
       Some (Inr [(''n.Name'', HString ''first''), (''n.Next.Name'', HString ''last''),
                  (''n.Next.Next'', HNil)])
   \<and> cyclic loopHeap loopNode \<and> reachExported loopHeap loopNode
   \<and> \<not> flagStickyRO noRO
   \<and> censorFields_h 1000 loopHeap [] ''n'' (noRO, loopNode) = None"
proof -
  have "acyclic_from endHeap endNode"
    unfolding endNode_def by (rule acyclic_struct) (auto intro: acyclic_leaf)
  then have "acyclic_from endHeap (HPtr 0)"
    by (intro acyclic_ptr) (simp add: endHeap_def)
  then have a: "acyclic_from endHeap headNode"
    unfolding headNode_def by (intro acyclic_struct) (auto intro: acyclic_leaf)
  have "child loopHeap loopNode (HPtr 0)"
    unfolding loopNode_def by (rule child_field [of "fld ''Next'' []"]) simp
  moreover have "child loopHeap (HPtr 0) (loopHeap 0)" by (rule child_ptr)
  then have "child loopHeap (HPtr 0) loopNode" by (simp add: loopHeap_def)
  ultimately have "(child loopHeap)\<^sup>+\<^sup>+ loopNode loopNode"
    by (rule tranclp.intros(2) [OF tranclp.intros(1)])
  then have c: "cyclic loopHeap loopNode" unfolding cyclic_def by blast
  have e: "reachExported loopHeap loopNode" by (rule loop_reachExported)
  have s: "\<not> flagStickyRO noRO" by (simp add: noRO_def)
  have three: "censorFields_h 3 endHeap [] ''n'' (noRO, headNode) =
       Some (Inr [(''n.Name'', HString ''first''), (''n.Next.Name'', HString ''last''),
                  (''n.Next.Next'', HNil)])"
    by (simp add: numeral_3_eq_3 headNode_def endNode_def endHeap_def fld_def noRO_def
        Field_flag_def IsExported_def isFieldSecret_def Tag_Get_def Interface_h_def flagRO_def
        Any_h_def)
  from walk_termination [where h = endHeap and v = headNode and ctx = "[]" and path = "''n''"
      and fl = noRO] a
  have t: "\<exists>n r. \<forall>m\<ge>n. censorFields_h m endHeap [] ''n'' (noRO, headNode) = Some r" by blast
  from walk_termination [where h = loopHeap and v = loopNode and ctx = "[]" and path = "''n''"
      and fl = noRO and n = 1000] c e s
  have "censorFields_h 1000 loopHeap [] ''n'' (noRO, loopNode) = None" by blast
  with a t three c e s show ?thesis by blast
qed

section \<open>The walker over a store against the walker over trees\<close>

text \<open>
  Whenever the walker over a store returns an accumulator, the stored value unfolds to a
  tree on which the tree walker returns the same entries. What is proved of returned
  accumulators in the tree model therefore covers every returning run.
\<close>

lemma sameStruct_cases:
  assumes "sameStruct h ho r"
  obtains (dead) "ho = Some None" "r = None"
        | (struct) s s' where "ho = Some (Some s)" "r = Some s'" "fst s = fst s'"
                              "unfolds h (snd s) (snd s')"
  using assms by (cases "(h, ho, r)" rule: sameStruct.cases) auto

lemma sameOutcome_cases:
  assumes "sameOutcome h ho r"
  obtains (panic) e where "ho = Some (Inl e)" "r = Inl e"
        | (ret) c c' where "ho = Some (Inr c)" "r = Inr c'" "sameEntries h c c'"
  using assms by (cases "(h, ho, r)" rule: sameOutcome.cases) auto

lemma censorFields_via_asStruct:
  assumes "asStruct v = Some s"
  shows "censorFields ctx path s = censorFields ctx path v"
proof -
  obtain fl x where v: "v = (fl, x)" by (cases v)
  with assms obtain fs where "s = (fl, VStruct fs)"
    by (cases s) (auto dest: asStruct_Some)
  with assms show ?thesis by simp
qed

lemma sameEntries_snoc:
  "sameEntries h hctx ctx \<Longrightarrow> unfolds h x y \<Longrightarrow> sameEntries h (hctx @ [(k, x)]) (ctx @ [(k, y)])"
  unfolding sameEntries_def by (simp add: list_all2_appendI)

lemma loop_agrees:
  assumes "list_all2 (\<lambda>p q. fst p = fst q \<and> unfolds h (snd p) (snd q) \<and> agrees h (snd p) (snd q)) fs gs"
  shows "\<exists>n. \<forall>m\<ge>n. \<forall>hctx ctx path fl. sameEntries h hctx ctx \<longrightarrow>
           sameOutcome h (censorLoop_h m h hctx path fl fs) (censorLoop ctx path fl gs)"
  using assms
proof (induction rule: list_all2_induct)
  case Nil
  then show ?case by simp
next
  case (Cons p fs q gs)
  obtain f x where p: "p = (f, x)" by (cases p)
  obtain g y where q: "q = (g, y)" by (cases q)
  from Cons.hyps(1) p q have fg: "g = f" and u: "unfolds h x y" and ag: "agrees h x y" by simp_all
  from ag obtain n1 where
    n1s: "\<And>m fl. m \<ge> n1 \<Longrightarrow> sameStruct h (asStruct_h m h (fl, x)) (asStruct (fl, y))" and
    n1c: "\<And>m hctx ctx path fl. m \<ge> n1 \<Longrightarrow> sameEntries h hctx ctx \<Longrightarrow>
        sameOutcome h (censorFields_h m h hctx path (fl, x)) (censorFields ctx path (fl, y))"
    unfolding agrees_def by blast
  from Cons.IH obtain n2 where
    n2: "\<And>m hctx ctx path fl. m \<ge> n2 \<Longrightarrow> sameEntries h hctx ctx \<Longrightarrow>
        sameOutcome h (censorLoop_h m h hctx path fl fs) (censorLoop ctx path fl gs)"
    by blast
  have "sameOutcome h (censorLoop_h m h hctx path fl ((f, x) # fs))
                      (censorLoop ctx path fl ((f, y) # gs))"
    if m: "m \<ge> max n1 n2" and se: "sameEntries h hctx ctx" for m hctx ctx path fl
  proof -
    let ?ffl = "Field_flag fl f"
    let ?p = "path @ ''.'' @ Name f"
    from m have m1: "m \<ge> n1" and m2: "m \<ge> n2" by simp_all
    from n1s [OF m1, of ?ffl] show ?thesis
    proof (cases rule: sameStruct_cases)
      case dead
      show ?thesis
      proof (cases "isFieldSecret f")
        case True
        have "sameEntries h (Str_h hctx ?p CensoredFieldPlaceholder) (Str ctx ?p CensoredFieldPlaceholder)"
          unfolding Str_h_def Str_def using se by (intro sameEntries_snoc u_string)
        from n2 [OF m2 this] show ?thesis using dead True by simp
      next
        case False
        show ?thesis
        proof (cases "flagRO ?ffl")
          case True
          then show ?thesis using dead False by (simp add: Interface_h_def Interface_def)
        next
          case ro: False
          have "sameEntries h (Any_h hctx ?p x) (Any ctx ?p y)"
            unfolding Any_h_def Any_def using se u by (rule sameEntries_snoc)
          from n2 [OF m2 this] show ?thesis using dead False ro
            by (simp add: Interface_h_def Interface_def)
        qed
      qed
    next
      case (struct s s')
      from struct(1) obtain k where k: "m = Suc k" by (cases m) auto
      have hs: "censorFields_h m h hctx ?p s = censorFields_h m h hctx ?p (?ffl, x)"
        using censorFields_h_via_asStruct [of k h "(?ffl, x)" s hctx ?p] struct(1) k by simp
      have ts: "censorFields ctx ?p s' = censorFields ctx ?p (?ffl, y)"
        using struct(2) by (rule censorFields_via_asStruct)
      from n1c [OF m1 se, of ?p ?ffl]
      have "sameOutcome h (censorFields_h m h hctx ?p s) (censorFields ctx ?p s')"
        by (simp only: hs ts)
      then show ?thesis
      proof (cases rule: sameOutcome_cases)
        case (panic e)
        then show ?thesis using struct by (simp del: censorFields.simps censorFields_h.simps)
      next
        case (ret c c')
        from n2 [OF m2 ret(3)] show ?thesis using struct ret
          by (simp del: censorFields.simps censorFields_h.simps)
      qed
    qed
  qed
  then show ?case using p q fg by blast
qed

lemma unfolds_agrees: "unfolds h v t \<Longrightarrow> agrees h v t"
proof (induction rule: unfolds.induct)
  case (u_ptr a t)
  then obtain n where
    ns: "\<And>m fl. m \<ge> n \<Longrightarrow> sameStruct h (asStruct_h m h (fl, h a)) (asStruct (fl, t))" and
    nc: "\<And>m hctx ctx path fl. m \<ge> n \<Longrightarrow> sameEntries h hctx ctx \<Longrightarrow>
        sameOutcome h (censorFields_h m h hctx path (fl, h a)) (censorFields ctx path (fl, t))"
    unfolding agrees_def by blast
  have "(\<forall>fl. sameStruct h (asStruct_h m h (fl, HPtr a)) (asStruct (fl, VPtr t))) \<and>
     (\<forall>hctx ctx path fl. sameEntries h hctx ctx \<longrightarrow>
        sameOutcome h (censorFields_h m h hctx path (fl, HPtr a)) (censorFields ctx path (fl, VPtr t)))"
    if m: "m \<ge> Suc n" for m
  proof -
    from m obtain k where k: "m = Suc k" "k \<ge> n" by (cases m) auto
    have a: "sameStruct h (asStruct_h (Suc k) h (fl, HPtr a)) (asStruct (fl, VPtr t))" for fl
      using ns [OF k(2), of fl] by simp
    have b: "sameOutcome h (censorFields_h (Suc k) h hctx path (fl, HPtr a))
                           (censorFields ctx path (fl, VPtr t))"
      if se: "sameEntries h hctx ctx" for hctx ctx path fl
    proof -
      from ns [OF k(2), of fl] obtain r where r: "asStruct_h k h (fl, h a) = Some r"
        by (cases rule: sameStruct_cases) auto
      then have r': "asStruct_h (Suc k) h (fl, h a) = Some r" by (rule asStruct_h_mono)
      have "censorFields_h (Suc k) h hctx path (fl, HPtr a) = censorFields_h (Suc k) h hctx path (fl, h a)"
        using r r' by simp
      moreover have "censorFields ctx path (fl, VPtr t) = censorFields ctx path (fl, t)" by simp
      moreover have "sameOutcome h (censorFields_h (Suc k) h hctx path (fl, h a))
                                   (censorFields ctx path (fl, t))"
        using nc [of "Suc k", OF _ se] k(2) by simp
      ultimately show ?thesis by simp
    qed
    from a b k show ?thesis by blast
  qed
  then show ?case unfolding agrees_def by blast
next
  case (u_struct fs gs)
  then have "list_all2 (\<lambda>p q. fst p = fst q \<and> unfolds h (snd p) (snd q) \<and> agrees h (snd p) (snd q)) fs gs"
    by (simp add: list_all2_conv_all_nth)
  from loop_agrees [OF this] obtain n where
    n: "\<And>m hctx ctx path fl. m \<ge> n \<Longrightarrow> sameEntries h hctx ctx \<Longrightarrow>
        sameOutcome h (censorLoop_h m h hctx path fl fs) (censorLoop ctx path fl gs)"
    by blast
  have u: "unfolds h (HStruct fs) (VStruct gs)"
    using u_struct by (intro unfolds.u_struct) (simp add: list_all2_conv_all_nth)
  have "(\<forall>fl. sameStruct h (asStruct_h m h (fl, HStruct fs)) (asStruct (fl, VStruct gs))) \<and>
     (\<forall>hctx ctx path fl. sameEntries h hctx ctx \<longrightarrow>
        sameOutcome h (censorFields_h m h hctx path (fl, HStruct fs))
                      (censorFields ctx path (fl, VStruct gs)))"
    if m: "m \<ge> Suc n" for m
  proof -
    from m obtain k where k: "m = Suc k" "k \<ge> n" by (cases m) auto
    show ?thesis using n [OF k(2)] k(1) u by simp
  qed
  then show ?case unfolding agrees_def by blast
qed (auto simp: agrees_def intro!: exI [of _ "Suc 0"] dest!: Suc_le_D)

lemma fields_unfold:
  "\<forall>p\<in>set fs. \<exists>t. unfolds h (snd p) t \<Longrightarrow>
   \<exists>gs. list_all2 (\<lambda>p q. fst p = fst q \<and> unfolds h (snd p) (snd q)) fs gs"
proof (induction fs)
  case Nil
  then show ?case by simp
next
  case (Cons p fs)
  then obtain t gs where "unfolds h (snd p) t"
    and "list_all2 (\<lambda>p q. fst p = fst q \<and> unfolds h (snd p) (snd q)) fs gs" by auto
  then have "list_all2 (\<lambda>p q. fst p = fst q \<and> unfolds h (snd p) (snd q)) (p # fs) ((fst p, t) # gs)"
    by simp
  then show ?case by blast
qed

lemma acyclic_unfolds: "acyclic_from h v \<Longrightarrow> \<exists>t. unfolds h v t"
proof (induction rule: acyclic_from.induct)
  case (1 v)
  show ?case
  proof (cases v)
    case (HPtr a)
    with 1 child_ptr obtain t where "unfolds h (h a) t" by blast
    then show ?thesis using HPtr by (blast intro: unfolds.intros)
  next
    case (HStruct fs)
    have "\<forall>p\<in>set fs. \<exists>t. unfolds h (snd p) t"
    proof
      fix p assume "p \<in> set fs"
      then have "(fst p, snd p) \<in> set fs" by simp
      then have "child h (HStruct fs) (snd p)" by (rule child_field)
      with 1 HStruct show "\<exists>t. unfolds h (snd p) t" by blast
    qed
    from fields_unfold [OF this] show ?thesis using HStruct by (blast intro: unfolds.intros)
  qed (blast intro: unfolds.intros)+
qed

lemma store_return_is_tree_return:
  assumes "censorFields_h n h [] path (fl, v) = Some (Inr hc)"
  shows "\<exists>t c. unfolds h v t \<and> censorFields [] path (fl, t) = Inr c \<and> sameEntries h hc c"
proof -
  from assms have "acyclic_from h v" using returns_acyclic by fastforce
  then obtain t where t: "unfolds h v t" using acyclic_unfolds by blast
  then have "agrees h v t" by (rule unfolds_agrees)
  then obtain k where k: "\<And>m hctx ctx path fl. m \<ge> k \<Longrightarrow> sameEntries h hctx ctx \<Longrightarrow>
        sameOutcome h (censorFields_h m h hctx path (fl, v)) (censorFields ctx path (fl, t))"
    unfolding agrees_def by blast
  have run: "censorFields_h (max n k) h [] path (fl, v) = Some (Inr hc)"
    using assms by (rule censorFields_h_stable) simp
  have "sameOutcome h (censorFields_h (max n k) h [] path (fl, v)) (censorFields [] path (fl, t))"
    by (rule k) (simp_all add: sameEntries_def)
  then have "\<exists>c. censorFields [] path (fl, t) = Inr c \<and> sameEntries h hc c"
    using run by (cases rule: sameOutcome_cases) auto
  with t show ?thesis by blast
qed

section \<open>Entries of readable records\<close>

lemmas example_defs =
  WithCensoredSecretFields_def ValueOf_def noRO_def fld_def hiddenFld_def Field_flag_def
  IsExported_def flagRO_def Interface_def isFieldSecret_def Tag_Get_def Str_def Any_def
  CensoredFieldPlaceholder_def

lemma filter_split_count:
  "length (filter (\<lambda>l. A l \<or> (\<not> A l \<and> B l)) ls) =
     length (filter A ls) + length (filter B (filter (\<lambda>l. \<not> A l) ls))"
  by (induction ls) auto

text \<open>
  When every unmarked leaf of the walked value is readable through reflection, the walker
  returns the accumulator extended, in order, by one entry per field that does not
  normalize to a record: the placeholder under a non-empty tag, the field's own value
  otherwise.
\<close>

lemma leaf_entries_when_readable:
  assumes "list_all readable (leaves path fl v)"
  shows "censorFields ctx path (fl, v) = Inr (ctx @ map emit (leaves path fl v))
     \<and> (\<forall>l\<in>set (leaves path fl v).
          \<not> normalizes (leafValue l)
          \<and> emit l = (leafPath l, if isFieldSecret (leafField l)
                                  then VString CensoredFieldPlaceholder else leafValue l))"
  using assms censor_leaves(1) [of ctx path "(fl, v)"] leaves_dead
  by (simp add: emit_def)

lemma leaf_entries_example:
  "list_all readable (leaves ''config'' noRO docConfig)
   \<and> censorFields [] ''config'' (noRO, docConfig) =
       Inr [(''config.Username'', VString ''admin''), (''config.Password'', VString ''***'')]"
proof -
  have r: "list_all readable (leaves ''config'' noRO docConfig)"
    by (simp add: docConfig_def example_defs normalizes_def readable_def leafField_def
        leafFlag_def)
  have "map emit (leaves ''config'' noRO docConfig) =
      [(''config.Username'', VString ''admin''), (''config.Password'', VString ''***'')]"
    by (simp add: docConfig_def example_defs normalizes_def emit_def leafPath_def
        leafField_def leafValue_def)
  with leaf_entries_when_readable [OF r, of "[]"] r show ?thesis by simp
qed

text \<open>
  A field whose value normalizes to a record is always descended into, under the field's
  path, whatever its tag: changing the tag of such a field changes nothing. When the
  unmarked leaves inside are readable, the entries that come from it all lie strictly
  below the field's path, and every unmarked leaf inside is there with its own value.
\<close>

lemma marked_record_field:
  assumes "normalizes x"
  shows "censorLoop ctx path fl ((f, x) # rest) =
           (case censorFields ctx (path @ ''.'' @ Name f) (Field_flag fl f, x) of
              Inl e \<Rightarrow> Inl e
            | Inr c \<Rightarrow> censorLoop c path fl rest)
     \<and> censorLoop ctx path fl ((f\<lparr>Tag := t\<rparr>, x) # rest) = censorLoop ctx path fl ((f, x) # rest)
     \<and> (list_all readable (leaves (path @ ''.'' @ Name f) (Field_flag fl f) x) \<longrightarrow>
          (\<exists>new. censorFields ctx (path @ ''.'' @ Name f) (Field_flag fl f, x) = Inr (ctx @ new)
             \<and> path @ ''.'' @ Name f \<notin> fst ` set new
             \<and> (\<forall>l\<in>set (leaves (path @ ''.'' @ Name f) (Field_flag fl f) x).
                   \<not> isFieldSecret (leafField l) \<longrightarrow> (leafPath l, leafValue l) \<in> set new)))"
proof (intro conjI impI)
  let ?p = "path @ ''.'' @ Name f"
  let ?fl = "Field_flag fl f"
  from assms obtain s where s: "asStruct (?fl, x) = Some s"
    using asStruct_None_iff [of ?fl x] by auto
  have same: "censorFields c ?p s = censorFields c ?p (?fl, x)" for c
    using s by (rule censorFields_via_asStruct)
  show rec: "censorLoop ctx path fl ((f, x) # rest) =
           (case censorFields ctx ?p (?fl, x) of Inl e \<Rightarrow> Inl e | Inr c \<Rightarrow> censorLoop c path fl rest)"
    using s same by (simp del: censorFields.simps)
  have "censorLoop ctx path fl ((f\<lparr>Tag := t\<rparr>, x) # rest) =
           (case censorFields ctx ?p (?fl, x) of Inl e \<Rightarrow> Inl e | Inr c \<Rightarrow> censorLoop c path fl rest)"
    using s same by (simp add: Field_flag_Tag del: censorFields.simps)
  with rec show "censorLoop ctx path fl ((f\<lparr>Tag := t\<rparr>, x) # rest) = censorLoop ctx path fl ((f, x) # rest)"
    by simp
next
  let ?p = "path @ ''.'' @ Name f"
  let ?fl = "Field_flag fl f"
  let ?new = "map emit (leaves ?p ?fl x)"
  assume r: "list_all readable (leaves ?p ?fl x)"
  then have ret: "censorFields ctx ?p (?fl, x) = Inr (ctx @ ?new)"
    using censor_leaves(1) [of ctx ?p "(?fl, x)"] by simp
  have key: "?p \<notin> fst ` set ?new"
  proof
    assume "?p \<in> fst ` set ?new"
    then obtain l where l: "l \<in> set (leaves ?p ?fl x)" and "leafPath l = ?p"
      by (auto simp: emit_def)
    moreover from leaves_extend [OF l] obtain s where "leafPath l = ?p @ ''.'' @ s" by blast
    ultimately show False by simp
  qed
  have plain: "(leafPath l, leafValue l) \<in> set ?new"
    if l: "l \<in> set (leaves ?p ?fl x)" and p: "\<not> isFieldSecret (leafField l)" for l
  proof -
    from l have "emit l \<in> set ?new" by simp
    moreover from p have "emit l = (leafPath l, leafValue l)" by (simp add: emit_def)
    ultimately show ?thesis by simp
  qed
  from ret key plain
  show "\<exists>new. censorFields ctx ?p (?fl, x) = Inr (ctx @ new)
             \<and> ?p \<notin> fst ` set new
             \<and> (\<forall>l\<in>set (leaves ?p ?fl x).
                   \<not> isFieldSecret (leafField l) \<longrightarrow> (leafPath l, leafValue l) \<in> set new)"
    by blast
qed

lemma marked_record_field_example:
  "normalizes credsValue \<and> isFieldSecret credsField
   \<and> list_all readable (leaves ''cfg.Creds'' (Field_flag noRO credsField) credsValue)
   \<and> censorFields [] ''cfg.Creds'' (Field_flag noRO credsField, credsValue) =
       Inr [(''cfg.Creds.User'', VString ''u''), (''cfg.Creds.Pass'', VString ''***'')]
   \<and> censorLoop [] ''cfg'' noRO [(credsField, credsValue)] =
       Inr [(''cfg.Creds.User'', VString ''u''), (''cfg.Creds.Pass'', VString ''***'')]
   \<and> censorLoop [] ''cfg'' noRO [(credsField\<lparr>Tag := []\<rparr>, credsValue)] =
       Inr [(''cfg.Creds.User'', VString ''u''), (''cfg.Creds.Pass'', VString ''***'')]
   \<and> (\<exists>new. censorFields [] ''cfg.Creds'' (Field_flag noRO credsField, credsValue) = Inr ([] @ new)
         \<and> ''cfg.Creds'' \<notin> fst ` set new
         \<and> (\<forall>l\<in>set (leaves ''cfg.Creds'' (Field_flag noRO credsField) credsValue).
               \<not> isFieldSecret (leafField l) \<longrightarrow> (leafPath l, leafValue l) \<in> set new))"
proof -
  have n: "normalizes credsValue" by (simp add: normalizes_def credsValue_def)
  have m: "isFieldSecret credsField" by (simp add: credsField_def example_defs)
  have r: "list_all readable (leaves ''cfg.Creds'' (Field_flag noRO credsField) credsValue)"
    by (simp add: credsField_def credsValue_def example_defs normalizes_def readable_def
        leafField_def leafFlag_def)
  have inner: "censorFields [] ''cfg.Creds'' (Field_flag noRO credsField, credsValue) =
       Inr [(''cfg.Creds.User'', VString ''u''), (''cfg.Creds.Pass'', VString ''***'')]"
    by (simp add: credsField_def credsValue_def example_defs)
  have nm: "''cfg'' @ ''.'' @ Name credsField = ''cfg.Creds''"
    by (simp add: credsField_def fld_def)
  note t = marked_record_field [OF n, of "[]" "''cfg''" noRO credsField "[]" "[]",
      unfolded nm]
  from t have "censorLoop [] ''cfg'' noRO [(credsField, credsValue)] =
       (case censorFields [] ''cfg.Creds'' (Field_flag noRO credsField, credsValue) of
          Inl e \<Rightarrow> Inl e | Inr c \<Rightarrow> censorLoop c ''cfg'' noRO [])" by blast
  then have a: "censorLoop [] ''cfg'' noRO [(credsField, credsValue)] =
       Inr [(''cfg.Creds.User'', VString ''u''), (''cfg.Creds.Pass'', VString ''***'')]"
    by (simp only: inner sum.case censorLoop.simps)
  from t have "censorLoop [] ''cfg'' noRO [(credsField\<lparr>Tag := []\<rparr>, credsValue)] =
       censorLoop [] ''cfg'' noRO [(credsField, credsValue)]" by blast
  with a have b: "censorLoop [] ''cfg'' noRO [(credsField\<lparr>Tag := []\<rparr>, credsValue)] =
       Inr [(''cfg.Creds.User'', VString ''u''), (''cfg.Creds.Pass'', VString ''***'')]"
    by simp
  from t r have c: "\<exists>new. censorFields [] ''cfg.Creds'' (Field_flag noRO credsField, credsValue) = Inr ([] @ new)
         \<and> ''cfg.Creds'' \<notin> fst ` set new
         \<and> (\<forall>l\<in>set (leaves ''cfg.Creds'' (Field_flag noRO credsField) credsValue).
               \<not> isFieldSecret (leafField l) \<longrightarrow> (leafPath l, leafValue l) \<in> set new)"
    by blast
  from n m r inner a b c show ?thesis by blast
qed

section \<open>The claims\<close>

text \<open>
  C1. The claim: for every input value, root label and accumulator, the redaction
  completes without a panic, and an unreadable field only means that nothing is emitted
  for that branch. The walker calls \<^verbatim>\<open>Interface()\<close> on every unmarked field that is not a
  record, and reflection panics there when the field is unexported. On the value
  \<^verbatim>\<open>struct{ name string }{"x"}\<close> the redaction therefore ends in a panic instead of
  returning an accumulator.
\<close>

theorem C1_unexported_field_panics:
  "WithCensoredSecretFields [] ''cfg'' unexportedConfig = Inl PanicUnexported"
  by (simp add: unexportedConfig_def example_defs)

text \<open>
  C2, as stated: a record with N marked leaf fields yields exactly N entries whose value
  is the placeholder string and no entry equal to an original marked value. The record
  \<open>coincide\<close> has one marked leaf, yet two entries hold the placeholder string (the
  unmarked field \<open>A\<close> holds that very text), and the entry of the unmarked field \<open>C\<close>
  equals the marked value.
\<close>

theorem C2_counterexample:
  "WithCensoredSecretFields [] ''cfg'' coincide = Inr coincide_out
   \<and> length (secretLeaves ''cfg'' noRO coincide) = 1
   \<and> length (filter holdsPlaceholder coincide_out) = 2
   \<and> (''cfg.C'', VString ''pw'') \<in> set coincide_out
   \<and> VString ''pw'' \<in> set (map leafValue (secretLeaves ''cfg'' noRO coincide))"
  by (simp add: coincide_def coincide_out_def example_defs secretLeaves_def normalizes_def
      leafField_def leafValue_def holdsPlaceholder_def)

text \<open>
  C2, amended: when the walk returns, the entries it appended that hold the placeholder
  string number N plus the unmarked leaf fields whose own value is that string, and every
  appended entry holds either the placeholder or the value of an unmarked leaf field. A
  marked value thus shows up only where an unmarked field holds the same value.
\<close>

theorem C2_placeholder_entries:
  assumes "censorFields ctx path (fl, v) = Inr ctx'"
  shows "\<exists>new. ctx' = ctx @ new
     \<and> length (filter holdsPlaceholder new) =
         length (secretLeaves path fl v) +
         length (filter (\<lambda>l. leafValue l = VString CensoredFieldPlaceholder) (plainLeaves path fl v))
     \<and> (\<forall>e\<in>set new. holdsPlaceholder e \<or> snd e \<in> leafValue ` set (plainLeaves path fl v))"
proof -
  let ?ls = "leaves path fl v"
  have c: "ctx' = ctx @ map emit ?ls" using assms by (rule censorFields_Inr)
  have h: "holdsPlaceholder (emit l) \<longleftrightarrow>
        isFieldSecret (leafField l) \<or>
        (\<not> isFieldSecret (leafField l) \<and> leafValue l = VString CensoredFieldPlaceholder)" for l
    by (simp add: holdsPlaceholder_def emit_def)
  have "length (filter holdsPlaceholder (map emit ?ls)) =
        length (filter (\<lambda>l. isFieldSecret (leafField l) \<or>
          (\<not> isFieldSecret (leafField l) \<and> leafValue l = VString CensoredFieldPlaceholder)) ?ls)"
    by (simp add: filter_map comp_def h)
  also have "\<dots> = length (secretLeaves path fl v) +
         length (filter (\<lambda>l. leafValue l = VString CensoredFieldPlaceholder) (plainLeaves path fl v))"
    unfolding secretLeaves_def plainLeaves_def by (rule filter_split_count)
  finally have n: "length (filter holdsPlaceholder (map emit ?ls)) =
        length (secretLeaves path fl v) +
        length (filter (\<lambda>l. leafValue l = VString CensoredFieldPlaceholder) (plainLeaves path fl v))" .
  have "holdsPlaceholder e \<or> snd e \<in> leafValue ` set (plainLeaves path fl v)"
    if "e \<in> set (map emit ?ls)" for e
  proof -
    from that obtain l where l: "l \<in> set ?ls" "e = emit l" by auto
    show ?thesis
    proof (cases "isFieldSecret (leafField l)")
      case True
      then show ?thesis using l by (simp add: holdsPlaceholder_def emit_def)
    next
      case False
      then have "l \<in> set (plainLeaves path fl v)" using l by (simp add: plainLeaves_def)
      moreover have "snd e = leafValue l" using l False by (simp add: emit_def)
      ultimately show ?thesis by blast
    qed
  qed
  with c n show ?thesis by blast
qed

theorem C2_placeholder_entries_witness:
  "censorFields [] ''config'' (noRO, testConfig) = Inr testConfig_out
   \<and> length (secretLeaves ''config'' noRO testConfig) = 3
   \<and> (\<exists>new. testConfig_out = [] @ new
     \<and> length (filter holdsPlaceholder new) =
         length (secretLeaves ''config'' noRO testConfig) +
         length (filter (\<lambda>l. leafValue l = VString CensoredFieldPlaceholder)
                   (plainLeaves ''config'' noRO testConfig))
     \<and> (\<forall>e\<in>set new. holdsPlaceholder e
           \<or> snd e \<in> leafValue ` set (plainLeaves ''config'' noRO testConfig)))"
proof -
  have h: "censorFields [] ''config'' (noRO, testConfig) = Inr testConfig_out"
    by (simp add: testConfig_def testConfig_out_def example_defs)
  have n: "length (secretLeaves ''config'' noRO testConfig) = 3"
    by (simp add: testConfig_def example_defs secretLeaves_def normalizes_def leafField_def)
  from C2_placeholder_entries [OF h] h n show ?thesis by simp
qed

text \<open>
  C3. The claim: every field of a walked record whose value does not normalize to a record
  gets an entry, the field path with the placeholder when its tag is non-empty and the
  field path with its own value otherwise. The record \<open>hiddenToken\<close> has two such
  fields, both unmarked, and the claim expects the two entries below; the second field is
  unexported, the walker panics on reading it, and no accumulator comes back.
\<close>

theorem C3_hidden_field_panics:
  "map emit (leaves ''cfg'' noRO hiddenToken) =
     [(''cfg.Name'', VString ''root''), (''cfg.token'', VString ''t'')]
   \<and> WithCensoredSecretFields [] ''cfg'' hiddenToken = Inl PanicUnexported"
  by (simp add: hiddenToken_def example_defs normalizes_def emit_def leafPath_def
      leafField_def leafValue_def)

text \<open>
  C4, as stated: a dead end, also one reached as a nested field, emits nothing for its
  branch. In \<open>nilNested\<close> the field \<open>Level2\<close> is a nil reference, hence a dead end, and
  the walker still emits an entry for it, holding the nil reference.
\<close>

theorem C4_counterexample:
  "asStruct (Field_flag noRO (fld ''Level2'' [(''json'', ''level2'')]), VNil) = None
   \<and> WithCensoredSecretFields [] ''cfg'' nilNested =
       Inr [(''cfg.Name'', VString ''root''), (''cfg.Level2'', VNil)]"
  by (simp add: nilNested_def example_defs)

text \<open>
  C4, amended: a dead end passed as the top-level value emits nothing and signals no
  error. A dead end reached as a nested field emits nothing below it, but the field
  itself is emitted as one leaf entry, the placeholder when it is marked and its own value
  (nil for a nil reference) when it is unmarked and readable; the walk then goes on with
  the fields declared after it.
\<close>

theorem C4_dead_ends:
  "(asStruct v = None \<longrightarrow> censorFields ctx path v = Inr ctx)
   \<and> (asStruct (Field_flag fl f, x) = None \<and> censorLoop ctx path fl pre = Inr c
        \<and> (isFieldSecret f \<or> \<not> flagRO (Field_flag fl f))
      \<longrightarrow> censorFields ctx path (fl, VStruct (pre @ (f, x) # post)) =
           censorLoop (c @ [(path @ ''.'' @ Name f,
                             if isFieldSecret f then VString CensoredFieldPlaceholder else x)])
             path fl post)"
proof (intro conjI impI)
  assume "asStruct v = None"
  then show "censorFields ctx path v = Inr ctx" by simp
next
  assume a: "asStruct (Field_flag fl f, x) = None \<and> censorLoop ctx path fl pre = Inr c
        \<and> (isFieldSecret f \<or> \<not> flagRO (Field_flag fl f))"
  have "censorFields ctx path (fl, VStruct (pre @ (f, x) # post)) =
        censorLoop ctx path fl (pre @ (f, x) # post)" by simp
  also have "\<dots> = censorLoop c path fl ((f, x) # post)"
    using a by (simp add: censorLoop_append)
  also have "\<dots> = censorLoop (c @ [(path @ ''.'' @ Name f,
                             if isFieldSecret f then VString CensoredFieldPlaceholder else x)])
             path fl post"
    using a by (auto simp: Str_def Any_def Interface_def)
  finally show "censorFields ctx path (fl, VStruct (pre @ (f, x) # post)) =
           censorLoop (c @ [(path @ ''.'' @ Name f,
                             if isFieldSecret f then VString CensoredFieldPlaceholder else x)])
             path fl post" .
qed

theorem C4_dead_ends_witness:
  "asStruct (ValueOf (VInt 42)) = None
   \<and> censorFields [] ''value'' (ValueOf (VInt 42)) = Inr []
   \<and> asStruct (Field_flag noRO (fld ''Level2'' [(''json'', ''level2'')]), VNil) = None
   \<and> censorLoop [] ''cfg'' noRO [(fld ''Name'' [(''json'', ''name'')], VString ''root'')]
        = Inr [(''cfg.Name'', VString ''root'')]
   \<and> \<not> flagRO (Field_flag noRO (fld ''Level2'' [(''json'', ''level2'')]))
   \<and> censorFields [] ''cfg'' (noRO, nilNested) =
        Inr [(''cfg.Name'', VString ''root''), (''cfg.Level2'', VNil)]"
proof -
  let ?f = "fld ''Level2'' [(''json'', ''level2'')]"
  let ?pre = "[(fld ''Name'' [(''json'', ''name'')], VString ''root'')]"
  have a: "asStruct (ValueOf (VInt 42)) = None" by (simp add: ValueOf_def)
  have b: "asStruct (Field_flag noRO ?f, VNil) = None" by simp
  have c: "censorLoop [] ''cfg'' noRO ?pre = Inr [(''cfg.Name'', VString ''root'')]"
    by (simp add: example_defs)
  have d: "\<not> flagRO (Field_flag noRO ?f)" by (simp add: example_defs)
  have e: "\<not> isFieldSecret ?f" by (simp add: example_defs)
  have n: "nilNested = VStruct (?pre @ (?f, VNil) # [])" by (simp add: nilNested_def)
  from C4_dead_ends [of "ValueOf (VInt 42)" "[]" "''value''"] a
  have top: "censorFields [] ''value'' (ValueOf (VInt 42)) = Inr []" by blast
  from C4_dead_ends [of _ _ _ noRO ?f VNil ?pre "[(''cfg.Name'', VString ''root'')]" "[]"] b c d
  have step: "censorFields [] ''cfg'' (noRO, VStruct (?pre @ (?f, VNil) # [])) =
        censorLoop ([(''cfg.Name'', VString ''root'')] @ [(''cfg'' @ ''.'' @ Name ?f,
            if isFieldSecret ?f then VString CensoredFieldPlaceholder else VNil)]) ''cfg'' noRO []"
    by blast
  have "censorLoop ([(''cfg.Name'', VString ''root'')] @ [(''cfg'' @ ''.'' @ Name ?f,
            if isFieldSecret ?f then VString CensoredFieldPlaceholder else VNil)]) ''cfg'' noRO []
        = Inr [(''cfg.Name'', VString ''root''), (''cfg.Level2'', VNil)]"
    using e by (simp add: fld_def)
  with step have "censorFields [] ''cfg'' (noRO, VStruct (?pre @ (?f, VNil) # [])) =
        Inr [(''cfg.Name'', VString ''root''), (''cfg.Level2'', VNil)]"
    by (rule trans)
  then have "censorFields [] ''cfg'' (noRO, nilNested) =
        Inr [(''cfg.Name'', VString ''root''), (''cfg.Level2'', VNil)]"
    by (simp only: n)
  with a b c d top show ?thesis by blast
qed

text \<open>
  C5. For every record and every chain of reference indirections leading to it, redacting
  the reference under a root label gives the same outcome, entry for entry and in the
  same order, as redacting the record itself.
\<close>

theorem C5_indirections:
  "WithCensoredSecretFields ctx rootName ((VPtr ^^ n) (VStruct fs)) =
   WithCensoredSecretFields ctx rootName (VStruct fs)"
  by (simp add: WithCensoredSecretFields_def ValueOf_def asStruct_funpow)

text \<open>
  C6. When the redaction returns, the paths of the entries it appended are, in order, the
  root label followed by one dot-separated segment per nesting level, each segment the
  declared name of the field at that level, and they follow the declaration order of the
  fields at every level.
\<close>

theorem C6_field_paths:
  assumes "WithCensoredSecretFields ctx rootName v = Inr ctx'"
  shows "map fst ctx' = map fst ctx @ map (joinPath rootName) (leafSegments v)"
proof -
  from assms have "ctx' = ctx @ map emit (leaves rootName noRO v)"
    unfolding WithCensoredSecretFields_def ValueOf_def by (rule censorFields_Inr)
  moreover have "map fst (map emit (leaves rootName noRO v)) = map leafPath (leaves rootName noRO v)"
    by (simp add: emit_def comp_def)
  ultimately show ?thesis by (simp add: leaves_paths)
qed

theorem C6_field_paths_witness:
  "WithCensoredSecretFields [] ''cfg'' deepNesting =
     Inr [(''cfg.Name'', VString ''root''),
          (''cfg.Level2.Info'', VString ''middle''),
          (''cfg.Level2.Level3.Data'', VString ''deep_data''),
          (''cfg.Level2.Level3.Secret'', VString ''***''),
          (''cfg.Token'', VString ''***'')]
   \<and> map (joinPath ''cfg'') (leafSegments deepNesting) =
       [''cfg.Name'', ''cfg.Level2.Info'', ''cfg.Level2.Level3.Data'',
        ''cfg.Level2.Level3.Secret'', ''cfg.Token'']"
proof -
  have h: "WithCensoredSecretFields [] ''cfg'' deepNesting =
     Inr [(''cfg.Name'', VString ''root''),
          (''cfg.Level2.Info'', VString ''middle''),
          (''cfg.Level2.Level3.Data'', VString ''deep_data''),
          (''cfg.Level2.Level3.Secret'', VString ''***''),
          (''cfg.Token'', VString ''***'')]"
    by (simp add: deepNesting_def example_defs)
  from C6_field_paths [OF h] h show ?thesis by simp
qed

text \<open>
  C7. On every invocation of the hook, the event gains the auxiliary pairs of the error
  context followed by an \<^verbatim>\<open>error\<close> field exactly when the context carries an error;
  when it carries none, neither is added. Whatever else the hook adds is at most one
  \<^verbatim>\<open>file\<close> field.
\<close>

theorem C7_error_context:
  "\<exists>tail. evFields (Run From Caller e level msg) =
      evFields e @
      (case Err (From (evCtx e)) of
         None \<Rightarrow> []
       | Some m \<Rightarrow> Ctx (From (evCtx e)) @ [(''error'', VString m)]) @ tail
    \<and> (tail = [] \<or> (\<exists>s. tail = [(''file'', VString s)]))"
  unfolding Run_fields errFields_def by (auto split: option.splits)

theorem C7_error_context_witness:
  "(\<exists>tail. evFields (Run id noCaller someEvent InfoLevel ''m'') =
      [(''document'', VString ''d''), (''manifest'', VString ''x''), (''error'', VString ''boom'')]
      @ tail
      \<and> (tail = [] \<or> (\<exists>s. tail = [(''file'', VString s)])))
   \<and> (\<exists>tail. evFields (Run id noCaller quietEvent InfoLevel ''m'') =
      [(''document'', VString ''d'')] @ tail
      \<and> (tail = [] \<or> (\<exists>s. tail = [(''file'', VString s)])))"
proof -
  have a: "Err (id (evCtx someEvent)) = Some ''boom''"
    "Ctx (id (evCtx someEvent)) = [(''manifest'', VString ''x'')]"
    "evFields someEvent = [(''document'', VString ''d'')]"
    by (simp_all add: someEvent_def failedCtx_def)
  have b: "Err (id (evCtx quietEvent)) = None"
    "evFields quietEvent = [(''document'', VString ''d'')]"
    by (simp_all add: quietEvent_def quietCtx_def)
  from C7_error_context [of id noCaller someEvent InfoLevel "''m''"]
       C7_error_context [of id noCaller quietEvent InfoLevel "''m''"]
  show ?thesis unfolding a b by simp
qed

text \<open>
  C8. For the levels error, fatal and panic the hook resolves the frame three levels up
  and appends it as a \<^verbatim>\<open>file\<close> field reading file, colon, line; when the frame does
  not resolve, the field is left out and the event is otherwise the same. For every other
  level, in particular every level below error, no such field is appended.
\<close>

theorem C8_caller_field:
  "(level \<in> {ErrorLevel, FatalLevel, PanicLevel} \<and> Caller 3 = Some (file, line) \<longrightarrow>
      evFields (Run From Caller e level msg) =
        evFields e @ errFields (From (evCtx e)) @ [(''file'', VString (file @ '':'' @ itoa line))])
   \<and> (level \<in> {ErrorLevel, FatalLevel, PanicLevel} \<and> Caller 3 = None \<longrightarrow>
      evFields (Run From Caller e level msg) = evFields e @ errFields (From (evCtx e)))
   \<and> (level \<notin> {ErrorLevel, FatalLevel, PanicLevel} \<longrightarrow>
      evFields (Run From Caller e level msg) = evFields e @ errFields (From (evCtx e)))"
  unfolding Run_fields by auto

theorem C8_caller_field_witness:
  "ErrorLevel \<in> {ErrorLevel, FatalLevel, PanicLevel} \<and> mainCaller 3 = Some (''main.go'', 42)
   \<and> evFields (Run id mainCaller someEvent ErrorLevel ''m'') =
       [(''document'', VString ''d''), (''manifest'', VString ''x''),
        (''error'', VString ''boom''), (''file'', VString ''main.go:42'')]
   \<and> FatalLevel \<in> {ErrorLevel, FatalLevel, PanicLevel} \<and> noCaller 3 = None
   \<and> evFields (Run id noCaller someEvent FatalLevel ''m'') =
       [(''document'', VString ''d''), (''manifest'', VString ''x''), (''error'', VString ''boom'')]
   \<and> WarnLevel \<notin> {ErrorLevel, FatalLevel, PanicLevel}
   \<and> evFields (Run id mainCaller someEvent WarnLevel ''m'') =
       [(''document'', VString ''d''), (''manifest'', VString ''x''), (''error'', VString ''boom'')]"
proof -
  have e: "evFields someEvent @ errFields (id (evCtx someEvent)) =
      [(''document'', VString ''d''), (''manifest'', VString ''x''), (''error'', VString ''boom'')]"
    by (simp add: someEvent_def failedCtx_def errFields_def)
  have h1: "ErrorLevel \<in> {ErrorLevel, FatalLevel, PanicLevel} \<and> mainCaller 3 = Some (''main.go'', 42)"
    by (simp add: mainCaller_def)
  have h2: "FatalLevel \<in> {ErrorLevel, FatalLevel, PanicLevel} \<and> noCaller 3 = None"
    by (simp add: noCaller_def)
  have h3: "WarnLevel \<notin> {ErrorLevel, FatalLevel, PanicLevel}"
    by (simp add: WarnLevel_def ErrorLevel_def FatalLevel_def PanicLevel_def)
  from C8_caller_field [of ErrorLevel mainCaller "''main.go''" 42 id someEvent "''m''"] h1
  have r1: "evFields (Run id mainCaller someEvent ErrorLevel ''m'') =
      (evFields someEvent @ errFields (id (evCtx someEvent))) @ [(''file'', VString (''main.go'' @ '':'' @ itoa 42))]"
    by simp
  from C8_caller_field [of FatalLevel noCaller _ _ id someEvent "''m''"] h2
  have r2: "evFields (Run id noCaller someEvent FatalLevel ''m'') =
      evFields someEvent @ errFields (id (evCtx someEvent))"
    by blast
  from C8_caller_field [of WarnLevel mainCaller _ _ id someEvent "''m''"] h3
  have r3: "evFields (Run id mainCaller someEvent WarnLevel ''m'') =
      evFields someEvent @ errFields (id (evCtx someEvent))"
    by blast
  from r1 r2 r3 h1 h2 h3 show ?thesis unfolding e by (simp add: itoa_42)
qed

text \<open>
  C9. The claim: on every value whose reference graph is acyclic the walk terminates, and
  since no cycle detection or depth bound is applied, on a record whose field graph leads
  back to an ancestor the recursion does not terminate. \<open>panicNode\<close> points back at
  itself through \<open>Next\<close>, but its first field is unexported and unmarked: the walk
  stops there with a panic before it ever follows the cycle.
\<close>

theorem C9_cyclic_record_panics:
  "cyclic panicHeap panicNode
   \<and> censorFields_h 2 panicHeap [] ''n'' (noRO, panicNode) = Some (Inl PanicUnexported)"
proof -
  have "child panicHeap panicNode (HPtr 0)"
    unfolding panicNode_def by (rule child_field [of "fld ''Next'' []"]) simp
  moreover have "child panicHeap (HPtr 0) (panicHeap 0)" by (rule child_ptr)
  then have "child panicHeap (HPtr 0) panicNode" by (simp add: panicHeap_def)
  ultimately have "(child panicHeap)\<^sup>+\<^sup>+ panicNode panicNode" by (rule tranclp.intros(2) [OF tranclp.intros(1)])
  then have "cyclic panicHeap panicNode" unfolding cyclic_def by blast
  moreover have "censorFields_h 2 panicHeap [] ''n'' (noRO, panicNode) = Some (Inl PanicUnexported)"
    by (simp add: numeral_2_eq_2 panicNode_def hiddenFld_def fld_def noRO_def Field_flag_def
        IsExported_def isFieldSecret_def Tag_Get_def Interface_h_def flagRO_def)
  ultimately show ?thesis by simp
qed

text \<open>
  C10. The claim: a field whose value normalizes to a record is descended into and never
  replaced by a placeholder, also when it is marked, and so the unmarked leaf fields
  inside a marked record-valued field are emitted with their own values. Under the marked
  field \<open>Creds\<close> the record \<open>hiddenCreds\<close> has the unmarked leaf \<open>user\<close>, which is
  unexported: the walk panics on it and emits nothing.
\<close>

theorem C10_hidden_leaf_panics:
  "normalizes hiddenCreds \<and> isFieldSecret credsField
   \<and> map leafPath (plainLeaves ''cfg.Creds'' (Field_flag noRO credsField) hiddenCreds)
       = [''cfg.Creds.user'']
   \<and> censorLoop [] ''cfg'' noRO [(credsField, hiddenCreds)] = Inl PanicUnexported"
  by (simp add: hiddenCreds_def credsField_def example_defs normalizes_def plainLeaves_def
      leafPath_def leafField_def)

end
